theory Spec2Isabelle
  imports Main "HOL-Library.Product_Lexorder"
begin

section \<open>Grid, coordinates and Python list indexing\<close>

text \<open>
  A grid is the list of lists of ints of the source (1 walkable, 0 wall); a coordinate
  is a pair of Python ints. \<open>norm_index\<close> is Python's reading of a list index: an
  index in \<open>[-len, 0)\<close> counts from the end, one outside \<open>[-len, len)\<close> raises IndexError.
\<close>

type_synonym coord = "int \<times> int"
type_synonym grid = "int list list"

datatype error = InvalidDimensions | InvalidEndpoint | IndexError | KeyError

definition norm_index :: "nat \<Rightarrow> int \<Rightarrow> nat option" where
  "norm_index n i =
     (if 0 \<le> i \<and> i < int n then Some (nat i)
      else if - int n \<le> i \<and> i < 0 then Some (nat (int n + i))
      else None)"

definition py_index :: "'a list \<Rightarrow> int \<Rightarrow> error + 'a" where
  "py_index xs i = (case norm_index (length xs) i of None \<Rightarrow> Inl IndexError | Some k \<Rightarrow> Inr (xs ! k))"

definition py_store :: "'a list \<Rightarrow> int \<Rightarrow> 'a \<Rightarrow> error + 'a list" where
  "py_store xs i v = (case norm_index (length xs) i of None \<Rightarrow> Inl IndexError | Some k \<Rightarrow> Inr (xs[k := v]))"

text \<open>\<open>grid[r][c]\<close> and \<open>grid[r][c] = v\<close>.\<close>

definition cell :: "grid \<Rightarrow> coord \<Rightarrow> error + int" where
  "cell g p = (case py_index g (fst p) of Inl e \<Rightarrow> Inl e | Inr row \<Rightarrow> py_index row (snd p))"

definition set_cell :: "grid \<Rightarrow> coord \<Rightarrow> int \<Rightarrow> error + grid" where
  "set_cell g p v =
     (case py_index g (fst p) of
        Inl e \<Rightarrow> Inl e
      | Inr row \<Rightarrow> (case py_store row (snd p) v of
                     Inl e \<Rightarrow> Inl e
                   | Inr row' \<Rightarrow> py_store g (fst p) row'))"

section \<open>solver.py: A* search\<close>

text \<open>
  \<open>_neighbors\<close>: the four deltas in the source's order; \<open>cols\<close> is the length of
  row 0 (IndexError on an empty grid), and \<open>grid[nr][nc]\<close> is read only after the
  bounds test, so it can still raise on a ragged grid.
\<close>

fun neighbors_loop ::
  "grid \<Rightarrow> int \<Rightarrow> int \<Rightarrow> coord \<Rightarrow> coord list \<Rightarrow> coord list \<Rightarrow> error + coord list" where
  "neighbors_loop g rows cols node [] nbrs = Inr nbrs"
| "neighbors_loop g rows cols node (d # ds) nbrs =
     (let nr = fst node + fst d; nc = snd node + snd d
      in if 0 \<le> nr \<and> nr < rows \<and> 0 \<le> nc \<and> nc < cols
         then (case cell g (nr, nc) of
                 Inl e \<Rightarrow> Inl e
               | Inr v \<Rightarrow> if v = 1 then neighbors_loop g rows cols node ds (nbrs @ [(nr, nc)])
                          else neighbors_loop g rows cols node ds nbrs)
         else neighbors_loop g rows cols node ds nbrs)"

definition deltas4 :: "coord list" where
  "deltas4 = [(0, 1), (1, 0), (0, -1), (-1, 0)]"

definition neighbors :: "grid \<Rightarrow> coord \<Rightarrow> error + coord list" where
  "neighbors g node =
     (case py_index g 0 of
        Inl e \<Rightarrow> Inl e
      | Inr row0 \<Rightarrow> neighbors_loop g (int (length g)) (int (length row0)) node deltas4 [])"

definition heuristic :: "coord \<Rightarrow> coord \<Rightarrow> int" where
  "heuristic a b = \<bar>fst a - fst b\<bar> + \<bar>snd a - snd b\<bar>"

text \<open>
  The search state. \<open>open_set\<close> is the heapq heap of \<open>(f, coord)\<close> tuples: heappop
  returns the least tuple in Python's tuple order (first \<open>f\<close>, then row, then column),
  so the heap is modelled by its contents and \<open>heappop\<close> by removing the least element.
  g-scores start at 0 and only ever receive \<open>gscore[current] + 1\<close>, so they are naturals.
  The dictionary \<open>fscore\<close> of the source is written and never read; it is left out.
\<close>

record astar_state =
  open_set :: "(int \<times> coord) list"
  came_from :: "coord \<rightharpoonup> coord"
  gscore :: "coord \<rightharpoonup> nat"
  closed :: "coord set"

definition heappush :: "(int \<times> coord) list \<Rightarrow> int \<times> coord \<Rightarrow> (int \<times> coord) list" where
  "heappush h x = x # h"

definition heappop :: "(int \<times> coord) list \<Rightarrow> (int \<times> coord) \<times> (int \<times> coord) list" where
  "heappop h = (let m = min_list h in (m, remove1 m h))"

definition g_default :: nat where
  "g_default = 1000000"

text \<open>The body of \<open>for nbr in _neighbors(grid, current)\<close>; \<open>gscore[current]\<close> raises
  KeyError on a missing key.\<close>

fun relax :: "coord \<Rightarrow> coord \<Rightarrow> coord list \<Rightarrow> astar_state \<Rightarrow> error + astar_state" where
  "relax goal current [] s = Inr s"
| "relax goal current (nbr # ns) s =
     (if nbr \<in> closed s then relax goal current ns s
      else (case gscore s current of
              None \<Rightarrow> Inl KeyError
            | Some gc \<Rightarrow>
                (let tentative_g = gc + 1
                 in if tentative_g < (case gscore s nbr of None \<Rightarrow> g_default | Some v \<Rightarrow> v)
                    then relax goal current ns
                           (s\<lparr>came_from := (came_from s)(nbr \<mapsto> current),
                              gscore := (gscore s)(nbr \<mapsto> tentative_g),
                              open_set := heappush (open_set s)
                                            (int tentative_g + heuristic nbr goal, nbr)\<rparr>)
                    else relax goal current ns s)))"

text \<open>
  Path reconstruction: \<open>while path[-1] != start: path.append(came_from[path[-1]])\<close>,
  then reverse. The loop has no bound of its own, so not returning is the value \<open>None\<close>.
\<close>

partial_function (option) reconstruct ::
  "(coord \<rightharpoonup> coord) \<Rightarrow> coord \<Rightarrow> coord list \<Rightarrow> (error + coord list) option" where
  "reconstruct cf start path =
     (if last path = start then Some (Inr (rev path))
      else (case cf (last path) of
              None \<Rightarrow> Some (Inl KeyError)
            | Some p \<Rightarrow> reconstruct cf start (path @ [p])))"

text \<open>
  The main loop pops one heap entry per round. It terminates on every state: a push
  happens only when the g-score of an in-bounds cell strictly drops, so twice the sum of
  the g-scores over the cells in bounds plus the heap size decreases with each round.
\<close>

definition bounds :: "grid \<Rightarrow> coord set" where
  "bounds g = {0 ..< int (length g)} \<times> {0 ..< int (length (hd g))}"

definition gval :: "astar_state \<Rightarrow> coord \<Rightarrow> nat" where
  "gval s n = (case gscore s n of None \<Rightarrow> g_default | Some v \<Rightarrow> v)"

definition loop_measure :: "grid \<Rightarrow> astar_state \<Rightarrow> nat" where
  "loop_measure g s = 2 * (\<Sum>n \<in> bounds g. gval s n) + length (open_set s)"

lemma finite_bounds: "finite (bounds g)"
  by (simp add: bounds_def)

lemma neighbors_loop_bounds:
  "neighbors_loop g rows cols node ds acc = Inr nbrs \<Longrightarrow>
   set acc \<subseteq> {0 ..< rows} \<times> {0 ..< cols} \<Longrightarrow> set nbrs \<subseteq> {0 ..< rows} \<times> {0 ..< cols}"
  by (induction ds arbitrary: acc) (auto simp: Let_def split: if_splits sum.splits)

lemma neighbors_bounds: "neighbors g node = Inr nbrs \<Longrightarrow> set nbrs \<subseteq> bounds g"
  unfolding neighbors_def bounds_def
  by (cases g) (auto simp: py_index_def norm_index_def dest!: neighbors_loop_bounds split: sum.splits if_splits)

lemma gsum_update:
  assumes "n \<in> bounds g" "v < gval s n" "gscore s' = (gscore s)(n \<mapsto> v)"
  shows "(\<Sum>k \<in> bounds g. gval s' k) < (\<Sum>k \<in> bounds g. gval s k)"
proof (rule sum_strict_mono_ex1)
  show "finite (bounds g)" by (rule finite_bounds)
  show "\<forall>x\<in>bounds g. gval s' x \<le> gval s x"
    using assms(2,3) by (auto simp: gval_def)
  show "\<exists>a\<in>bounds g. gval s' a < gval s a"
    using assms by (auto simp: gval_def intro!: bexI[of _ n])
qed

lemma relax_measure:
  "relax goal cur ns s = Inr s' \<Longrightarrow> set ns \<subseteq> bounds g \<Longrightarrow> loop_measure g s' \<le> loop_measure g s"
proof (induction ns arbitrary: s)
  case Nil
  then show ?case by simp
next
  case (Cons nbr ns)
  show ?case
  proof (cases "nbr \<in> closed s")
    case True
    with Cons show ?thesis by simp
  next
    case False
    then obtain gc where gc: "gscore s cur = Some gc"
      using Cons.prems(1) by (auto split: option.splits)
    show ?thesis
    proof (cases "gc + 1 < gval s nbr")
      case True
      let ?s1 = "s\<lparr>came_from := (came_from s)(nbr \<mapsto> cur),
                    gscore := (gscore s)(nbr \<mapsto> gc + 1),
                    open_set := heappush (open_set s) (int (gc + 1) + heuristic nbr goal, nbr)\<rparr>"
      have r: "relax goal cur ns ?s1 = Inr s'"
        using Cons.prems(1) False gc True by (simp add: gval_def Let_def)
      have "loop_measure g s' \<le> loop_measure g ?s1"
        using Cons.IH[OF r] Cons.prems(2) by simp
      moreover have "(\<Sum>k \<in> bounds g. gval ?s1 k) < (\<Sum>k \<in> bounds g. gval s k)"
        by (rule gsum_update[of nbr g "gc + 1"]) (use Cons.prems(2) True in auto)
      then have "loop_measure g ?s1 \<le> loop_measure g s"
        by (simp add: loop_measure_def heappush_def)
      ultimately show ?thesis by simp
    next
      case F2: False
      then have "relax goal cur ns s = Inr s'"
        using Cons.prems(1) False gc by (simp add: gval_def Let_def)
      then show ?thesis using Cons.IH Cons.prems(2) by simp
    qed
  qed
qed

lemma heappop_length: "h \<noteq> [] \<Longrightarrow> length (snd (heappop h)) < length h"
  by (simp add: heappop_def Let_def length_remove1 min_list_Min)

lemma astar_loop_step_measure:
  assumes "open_set s \<noteq> []"
    and "neighbors g cur = Inr nbrs"
    and "relax goal cur nbrs
           (s\<lparr>open_set := snd (heappop (open_set s)), closed := cl\<rparr>) = Inr s3"
  shows "loop_measure g s3 < loop_measure g s"
proof -
  let ?s2 = "s\<lparr>open_set := snd (heappop (open_set s)), closed := cl\<rparr>"
  have "loop_measure g s3 \<le> loop_measure g ?s2"
    using relax_measure[OF assms(3)] neighbors_bounds[OF assms(2)] by simp
  also have "loop_measure g ?s2 < loop_measure g s"
    using heappop_length[OF assms(1)] by (simp add: loop_measure_def gval_def)
  finally show ?thesis .
qed

text \<open>The \<open>while open_set\<close> loop of \<open>astar\<close>.\<close>

function astar_loop :: "grid \<Rightarrow> coord \<Rightarrow> coord \<Rightarrow> astar_state \<Rightarrow> (error + coord list option) option" where
  "astar_loop g start goal s =
     (if open_set s = [] then Some (Inr None)
      else (let current = snd (fst (heappop (open_set s)));
                s1 = s\<lparr>open_set := snd (heappop (open_set s))\<rparr>
            in if current = goal
               then (case reconstruct (came_from s1) start [current] of
                       None \<Rightarrow> None
                     | Some (Inl e) \<Rightarrow> Some (Inl e)
                     | Some (Inr path) \<Rightarrow> Some (Inr (Some path)))
               else (let s2 = s1\<lparr>closed := insert current (closed s1)\<rparr>
                     in case neighbors g current of
                          Inl e \<Rightarrow> Some (Inl e)
                        | Inr nbrs \<Rightarrow>
                            (case relax goal current nbrs s2 of
                               Inl e \<Rightarrow> Some (Inl e)
                             | Inr s3 \<Rightarrow> astar_loop g start goal s3))))"
  by pat_completeness auto

termination
  apply (relation "measure (\<lambda>(g, start, goal, s). loop_measure g s)")
   apply simp
  apply (simp only: in_measure prod.case)
  apply (erule astar_loop_step_measure)
   apply assumption
  apply simp
  done

text \<open>
  \<open>astar\<close>: the guard reads \<open>grid[start[0]][start[1]]\<close> first and the goal cell only
  when the start cell is walkable (Python's \<open>or\<close>); the first heap entry has priority 0.
\<close>

definition astar :: "grid \<Rightarrow> coord \<Rightarrow> coord \<Rightarrow> (error + coord list option) option" where
  "astar g start goal =
     (case cell g start of
        Inl e \<Rightarrow> Some (Inl e)
      | Inr vs \<Rightarrow>
          if vs \<noteq> 1 then Some (Inr None)
          else (case cell g goal of
                  Inl e \<Rightarrow> Some (Inl e)
                | Inr vg \<Rightarrow>
                    if vg \<noteq> 1 then Some (Inr None)
                    else astar_loop g start goal
                           \<lparr>open_set = heappush [] (0, start), came_from = Map.empty,
                            gscore = [start \<mapsto> 0], closed = {}\<rparr>))"


declare astar_loop.simps [simp del]



section \<open>generator.py: the random source\<close>

text \<open>
  Python's \<open>random\<close> module is not part of the repository; it is a parameter. A generator
  is the sequence of answers it will give: the k-th call of \<open>_randbelow(n)\<close> returns
  \<open>draws k mod n\<close>, so every behaviour of a real generator is one such sequence.
  \<open>shuffle\<close> is CPython's: for \<open>i\<close> from \<open>len - 1\<close> down to 1, exchange \<open>x[i]\<close> with
  \<open>x[randbelow(i + 1)]\<close>. \<open>Random(seed)\<close> with an int seed depends on the seed alone
  (\<open>seeded\<close>); with \<open>None\<close> it is seeded from the system (\<open>entropy\<close>).
\<close>

record random =
  draws :: "nat \<Rightarrow> nat"
  pos :: nat

definition randbelow :: "nat \<Rightarrow> random \<Rightarrow> nat \<times> random" where
  "randbelow n rg = (draws rg (pos rg) mod n, rg\<lparr>pos := Suc (pos rg)\<rparr>)"

fun shuffle_from :: "nat \<Rightarrow> 'a list \<Rightarrow> random \<Rightarrow> 'a list \<times> random" where
  "shuffle_from 0 xs rg = (xs, rg)"
| "shuffle_from (Suc i) xs rg =
     (let j = fst (randbelow (Suc (Suc i)) rg); rg' = snd (randbelow (Suc (Suc i)) rg)
      in shuffle_from i (xs[Suc i := xs ! j, j := xs ! Suc i]) rg')"

definition shuffle :: "'a list \<Rightarrow> random \<Rightarrow> 'a list \<times> random" where
  "shuffle xs rg = shuffle_from (length xs - 1) xs rg"

definition Random :: "(int \<Rightarrow> nat \<Rightarrow> nat) \<Rightarrow> (nat \<Rightarrow> nat) \<Rightarrow> int option \<Rightarrow> random" where
  "Random seeded entropy seed =
     \<lparr>draws = (case seed of None \<Rightarrow> entropy | Some k \<Rightarrow> seeded k), pos = 0\<rparr>"

section \<open>generator.py: generate_maze\<close>

definition make_grid :: "int \<Rightarrow> int \<Rightarrow> grid" where
  "make_grid rows cols = replicate (nat (2 * rows + 1)) (replicate (nat (2 * cols + 1)) 0)"

definition to_grid :: "coord \<Rightarrow> coord" where
  "to_grid rc = (2 * fst rc + 1, 2 * snd rc + 1)"

text \<open>
  The variables of \<open>generate_maze\<close> that the closure \<open>carve\<close> shares: the grid, the
  visited matrix, the single list \<open>deltas\<close>, which every call of \<open>carve\<close> shuffles in
  place, and the generator.
\<close>

record gen_state =
  grid :: grid
  visited :: "bool list list"
  deltas :: "coord list"
  rng :: random

text \<open>\<open>m[r][c] = v\<close> at an index that the callers have checked to be in range.\<close>

definition put2 :: "'a list list \<Rightarrow> int \<Rightarrow> int \<Rightarrow> 'a \<Rightarrow> 'a list list" where
  "put2 m r c v = m[nat r := (m ! nat r)[nat c := v]]"

text \<open>The head of \<open>carve(r, c)\<close>: mark the room, open its cell, shuffle \<open>deltas\<close>.\<close>

definition carve_enter :: "int \<Rightarrow> int \<Rightarrow> gen_state \<Rightarrow> gen_state" where
  "carve_enter r c s =
     (let gr = fst (to_grid (r, c)); gc = snd (to_grid (r, c));
          sh = shuffle (deltas s) (rng s)
      in s\<lparr>visited := put2 (visited s) r c True,
           grid := put2 (grid s) gr gc 1,
           deltas := fst sh,
           rng := snd sh\<rparr>)"

text \<open>
  The loop \<open>for dr, dc in deltas\<close> of \<open>carve(r, c)\<close>, from position \<open>i\<close> of the list
  iterator. The iterator holds the list object and an index, so after a recursive call
  it reads position \<open>i + 1\<close> of the list as the inner calls have left it. \<open>open_wall\<close>
  writes 1 at the midpoint of the two rooms' grid cells. The recursive call
  \<open>carve(nr, nc)\<close> is \<open>carve_enter\<close> followed by the loop from position 0. The recursion
  has no bound of its own: not returning is \<open>None\<close>.
\<close>

definition open_wall :: "int \<Rightarrow> int \<Rightarrow> int \<Rightarrow> int \<Rightarrow> gen_state \<Rightarrow> gen_state" where
  "open_wall r c nr nc s =
     (let gr = fst (to_grid (r, c)); gc = snd (to_grid (r, c));
          gr2 = fst (to_grid (nr, nc)); gc2 = snd (to_grid (nr, nc));
          wall_r = (gr + gr2) div 2; wall_c = (gc + gc2) div 2
      in s\<lparr>grid := put2 (grid s) wall_r wall_c 1\<rparr>)"

partial_function (option) carve_loop ::
  "int \<Rightarrow> int \<Rightarrow> int \<Rightarrow> int \<Rightarrow> nat \<Rightarrow> gen_state \<Rightarrow> gen_state option" where
  "carve_loop rows cols r c i s =
     (if i < length (deltas s)
      then (let nr = r + fst (deltas s ! i); nc = c + snd (deltas s ! i)
            in if 0 \<le> nr \<and> nr < rows \<and> 0 \<le> nc \<and> nc < cols \<and> \<not> visited s ! nat nr ! nat nc
               then Option.bind (carve_loop rows cols nr nc 0 (carve_enter nr nc (open_wall r c nr nc s)))
                      (\<lambda>s2. carve_loop rows cols r c (Suc i) s2)
               else carve_loop rows cols r c (Suc i) s)
      else Some s)"

definition carve :: "int \<Rightarrow> int \<Rightarrow> int \<Rightarrow> int \<Rightarrow> gen_state \<Rightarrow> gen_state option" where
  "carve rows cols r c s = carve_loop rows cols r c 0 (carve_enter r c s)"

definition generate_maze ::
  "(int \<Rightarrow> nat \<Rightarrow> nat) \<Rightarrow> (nat \<Rightarrow> nat) \<Rightarrow> int \<Rightarrow> int \<Rightarrow> int option \<Rightarrow> (error + grid) option" where
  "generate_maze seeded entropy rows cols seed =
     (if rows < 1 \<or> cols < 1 then Some (Inl InvalidDimensions)
      else (case carve rows cols 0 0
                   \<lparr>grid = make_grid rows cols,
                    visited = replicate (nat rows) (replicate (nat cols) False),
                    deltas = deltas4,
                    rng = Random seeded entropy seed\<rparr> of
              None \<Rightarrow> None
            | Some s \<Rightarrow> Some (Inr (grid s))))"



section \<open>generator.py: the solvability mutators\<close>

text \<open>
  Both mutators receive the path finder as an argument \<open>astar_fn\<close>; it is a parameter
  here too, a function of the grid it is shown. It may raise an error of its own or not
  return. A run ends by returning a value, by raising one of this module's errors, or
  with the error of the path finder; the grid the caller holds afterwards is part of
  the result, since the mutators write to it in place.
\<close>

type_synonym 'e path_finder = "grid \<Rightarrow> coord \<Rightarrow> coord \<Rightarrow> ('e + coord list option) option"

datatype ('e, 'a) outcome = Returned 'a | Raised error | OracleRaised 'e

text \<open>Python's truth value of what the path finder returned: \<open>None\<close> and \<open>[]\<close> are false.\<close>

definition truthy :: "coord list option \<Rightarrow> bool" where
  "truthy p = (case p of None \<Rightarrow> False | Some xs \<Rightarrow> xs \<noteq> [])"

text \<open>The cells \<open>(r, c)\<close> for \<open>r in range(rows)\<close>, \<open>c in range(cols)\<close>, in that order.\<close>

definition all_cells :: "int \<Rightarrow> int \<Rightarrow> coord list" where
  "all_cells rows cols = List.product [0 .. rows - 1] [0 .. cols - 1]"

fun count_walkable :: "grid \<Rightarrow> int \<Rightarrow> int \<Rightarrow> coord \<Rightarrow> coord list \<Rightarrow> nat \<Rightarrow> error + nat" where
  "count_walkable g rows cols p [] neighs = Inr neighs"
| "count_walkable g rows cols p (d # ds) neighs =
     (let nr = fst p + fst d; nc = snd p + snd d
      in if 0 \<le> nr \<and> nr < rows \<and> 0 \<le> nc \<and> nc < cols
         then (case cell g (nr, nc) of
                 Inl e \<Rightarrow> Inl e
               | Inr v \<Rightarrow> count_walkable g rows cols p ds (if v = 1 then neighs + 1 else neighs))
         else count_walkable g rows cols p ds neighs)"

fun wall_candidates :: "grid \<Rightarrow> int \<Rightarrow> int \<Rightarrow> coord list \<Rightarrow> coord list \<Rightarrow> error + coord list" where
  "wall_candidates g rows cols [] candidates = Inr candidates"
| "wall_candidates g rows cols (p # ps) candidates =
     (case cell g p of
        Inl e \<Rightarrow> Inl e
      | Inr v \<Rightarrow>
          if v \<noteq> 0 then wall_candidates g rows cols ps candidates
          else (case count_walkable g rows cols p deltas4 0 of
                  Inl e \<Rightarrow> Inl e
                | Inr neighs \<Rightarrow>
                    if neighs \<ge> 2 then wall_candidates g rows cols ps (candidates @ [p])
                    else wall_candidates g rows cols ps candidates))"

text \<open>
  One trial of \<open>make_multiple_solutions\<close>: open the wall, ask the path finder, keep the
  change (the function returns True) or write 0 back. The inner \<open>None\<close> is the trial
  ending without a return, so that the loop goes on.
\<close>

definition open_trial ::
  "'e path_finder \<Rightarrow> coord \<Rightarrow> coord \<Rightarrow> coord list option \<Rightarrow> coord \<Rightarrow> grid
   \<Rightarrow> (('e, bool) outcome option \<times> grid) option" where
  "open_trial astar_fn start end' orig_path p g =
     (case set_cell g p 1 of
        Inl e \<Rightarrow> Some (Some (Raised e), g)
      | Inr g1 \<Rightarrow>
          (case astar_fn g1 start end' of
             None \<Rightarrow> None
           | Some (Inl e) \<Rightarrow> Some (Some (OracleRaised e), g1)
           | Some (Inr new_path) \<Rightarrow>
               if truthy new_path \<and> new_path \<noteq> orig_path then Some (Some (Returned True), g1)
               else (case set_cell g1 p 0 of
                       Inl e \<Rightarrow> Some (Some (Raised e), g1)
                     | Inr g2 \<Rightarrow> Some (None, g2))))"

fun try_open ::
  "'e path_finder \<Rightarrow> coord \<Rightarrow> coord \<Rightarrow> coord list option \<Rightarrow> int \<Rightarrow> int \<Rightarrow> coord list \<Rightarrow> grid
   \<Rightarrow> (('e, bool) outcome \<times> grid) option" where
  "try_open astar_fn start end' orig_path max_tries tries [] g = Some (Returned False, g)"
| "try_open astar_fn start end' orig_path max_tries tries (p # ps) g =
     (if tries \<ge> max_tries then Some (Returned False, g)
      else (case open_trial astar_fn start end' orig_path p g of
              None \<Rightarrow> None
            | Some (Some out, g1) \<Rightarrow> Some (out, g1)
            | Some (None, g2) \<Rightarrow>
                try_open astar_fn start end' orig_path max_tries (tries + 1) ps g2))"

definition make_multiple_solutions ::
  "(int \<Rightarrow> nat \<Rightarrow> nat) \<Rightarrow> (nat \<Rightarrow> nat) \<Rightarrow> grid \<Rightarrow> coord \<Rightarrow> coord \<Rightarrow> 'e path_finder \<Rightarrow> int \<Rightarrow> int option
   \<Rightarrow> (('e, bool) outcome \<times> grid) option" where
  "make_multiple_solutions seeded entropy g start end' astar_fn max_tries seed =
     (let rg = Random seeded entropy seed
      in case cell g start of
           Inl e \<Rightarrow> Some (Raised e, g)
         | Inr vs \<Rightarrow>
             if vs \<noteq> 1 then Some (Raised InvalidEndpoint, g)
             else (case cell g end' of
                     Inl e \<Rightarrow> Some (Raised e, g)
                   | Inr ve \<Rightarrow>
                       if ve \<noteq> 1 then Some (Raised InvalidEndpoint, g)
                       else (case astar_fn g start end' of
                               None \<Rightarrow> None
                             | Some (Inl e) \<Rightarrow> Some (OracleRaised e, g)
                             | Some (Inr orig_path) \<Rightarrow>
                                 if \<not> truthy orig_path then Some (Returned False, g)
                                 else (case py_index g 0 of
                                         Inl e \<Rightarrow> Some (Raised e, g)
                                       | Inr row0 \<Rightarrow>
                                           (case wall_candidates g (int (length g)) (int (length row0))
                                                   (all_cells (int (length g)) (int (length row0))) [] of
                                              Inl e \<Rightarrow> Some (Raised e, g)
                                            | Inr candidates \<Rightarrow>
                                                try_open astar_fn start end' orig_path max_tries 0
                                                  (fst (shuffle candidates rg)) g)))))"

text \<open>
  One trial of \<open>make_unsolvable\<close>, the same in both of its loops: save the cell, write 0,
  ask the path finder, keep the change (the function returns True) or write the saved
  value back. The first loop counts its tries; the second runs over the slice
  \<open>all_walkables[:max_tries]\<close>, which for a negative bound drops from the end.
\<close>

definition close_trial ::
  "'e path_finder \<Rightarrow> coord \<Rightarrow> coord \<Rightarrow> coord \<Rightarrow> grid
   \<Rightarrow> (('e, bool) outcome option \<times> grid) option" where
  "close_trial astar_fn start end' p g =
     (case cell g p of
        Inl e \<Rightarrow> Some (Some (Raised e), g)
      | Inr saved \<Rightarrow>
          (case set_cell g p 0 of
             Inl e \<Rightarrow> Some (Some (Raised e), g)
           | Inr g1 \<Rightarrow>
               (case astar_fn g1 start end' of
                  None \<Rightarrow> None
                | Some (Inl e) \<Rightarrow> Some (Some (OracleRaised e), g1)
                | Some (Inr new_path) \<Rightarrow>
                    if \<not> truthy new_path then Some (Some (Returned True), g1)
                    else (case set_cell g1 p saved of
                            Inl e \<Rightarrow> Some (Some (Raised e), g1)
                          | Inr g2 \<Rightarrow> Some (None, g2)))))"

fun block_path ::
  "'e path_finder \<Rightarrow> coord \<Rightarrow> coord \<Rightarrow> int \<Rightarrow> int \<Rightarrow> coord list \<Rightarrow> grid
   \<Rightarrow> (('e, bool) outcome option \<times> grid) option" where
  "block_path astar_fn start end' max_tries tries [] g = Some (None, g)"
| "block_path astar_fn start end' max_tries tries (p # ps) g =
     (if tries \<ge> max_tries then Some (None, g)
      else (case close_trial astar_fn start end' p g of
              None \<Rightarrow> None
            | Some (Some out, g1) \<Rightarrow> Some (Some out, g1)
            | Some (None, g2) \<Rightarrow> block_path astar_fn start end' max_tries (tries + 1) ps g2))"

fun block_any ::
  "'e path_finder \<Rightarrow> coord \<Rightarrow> coord \<Rightarrow> coord list \<Rightarrow> grid
   \<Rightarrow> (('e, bool) outcome option \<times> grid) option" where
  "block_any astar_fn start end' [] g = Some (None, g)"
| "block_any astar_fn start end' (p # ps) g =
     (case close_trial astar_fn start end' p g of
        None \<Rightarrow> None
      | Some (Some out, g1) \<Rightarrow> Some (Some out, g1)
      | Some (None, g2) \<Rightarrow> block_any astar_fn start end' ps g2)"

fun walkables :: "grid \<Rightarrow> coord \<Rightarrow> coord \<Rightarrow> coord list \<Rightarrow> coord list \<Rightarrow> error + coord list" where
  "walkables g start end' [] acc = Inr acc"
| "walkables g start end' (p # ps) acc =
     (case cell g p of
        Inl e \<Rightarrow> Inl e
      | Inr v \<Rightarrow> if v = 1 \<and> p \<notin> {start, end'} then walkables g start end' ps (acc @ [p])
                 else walkables g start end' ps acc)"

definition py_take :: "int \<Rightarrow> 'a list \<Rightarrow> 'a list" where
  "py_take k xs = (if 0 \<le> k then take (nat k) xs else take (length xs - nat (- k)) xs)"

definition make_unsolvable ::
  "(int \<Rightarrow> nat \<Rightarrow> nat) \<Rightarrow> (nat \<Rightarrow> nat) \<Rightarrow> grid \<Rightarrow> coord \<Rightarrow> coord \<Rightarrow> 'e path_finder \<Rightarrow> int option \<Rightarrow> int
   \<Rightarrow> (('e, bool) outcome \<times> grid) option" where
  "make_unsolvable seeded entropy g start end' astar_fn seed max_tries =
     (let rg = Random seeded entropy seed
      in case cell g start of
           Inl e \<Rightarrow> Some (Raised e, g)
         | Inr vs \<Rightarrow>
             if vs \<noteq> 1 then Some (Raised InvalidEndpoint, g)
             else (case cell g end' of
                     Inl e \<Rightarrow> Some (Raised e, g)
                   | Inr ve \<Rightarrow>
                       if ve \<noteq> 1 then Some (Raised InvalidEndpoint, g)
                       else (case astar_fn g start end' of
                               None \<Rightarrow> None
                             | Some (Inl e) \<Rightarrow> Some (OracleRaised e, g)
                             | Some (Inr path) \<Rightarrow>
                                 if \<not> truthy path then Some (Returned True, g)
                                 else (let intermediates = butlast (tl (the path));
                                           intermediates =
                                             (if intermediates = []
                                              then (if length (the path) > 1 then [the path ! 1] else [])
                                              else intermediates);
                                           sh = shuffle intermediates rg
                                       in case block_path astar_fn start end' max_tries 0 (fst sh) g of
                                            None \<Rightarrow> None
                                          | Some (Some out, g1) \<Rightarrow> Some (out, g1)
                                          | Some (None, g1) \<Rightarrow>
                                              (case py_index g1 0 of
                                                 Inl e \<Rightarrow> Some (Raised e, g1)
                                               | Inr row0 \<Rightarrow>
                                                   (case walkables g1 start end'
                                                           (all_cells (int (length g1)) (int (length row0))) [] of
                                                      Inl e \<Rightarrow> Some (Raised e, g1)
                                                    | Inr all_walkables \<Rightarrow>
                                                        (case block_any astar_fn start end'
                                                                (py_take max_tries
                                                                   (fst (shuffle all_walkables (snd sh)))) g1 of
                                                           None \<Rightarrow> None
                                                         | Some (Some out, g2) \<Rightarrow> Some (out, g2)
                                                         | Some (None, g2) \<Rightarrow> Some (Returned False, g2))))))))"



section \<open>Evaluation rules\<close>

text \<open>Stepping rules for the recursive definitions, used to run the model on concrete inputs.\<close>

definition carve_guard :: "int \<Rightarrow> int \<Rightarrow> int \<Rightarrow> int \<Rightarrow> nat \<Rightarrow> gen_state \<Rightarrow> bool" where
  "carve_guard rows cols r c i s =
     (let nr = r + fst (deltas s ! i); nc = c + snd (deltas s ! i)
      in 0 \<le> nr \<and> nr < rows \<and> 0 \<le> nc \<and> nc < cols \<and> \<not> visited s ! nat nr ! nat nc)"

lemma carve_loop_done:
  "\<not> i < length (deltas s) \<Longrightarrow> carve_loop rows cols r c i s = Some s"
  by (subst carve_loop.simps) simp

lemma carve_loop_skip:
  "i < length (deltas s) \<Longrightarrow> \<not> carve_guard rows cols r c i s \<Longrightarrow>
   carve_loop rows cols r c i s = carve_loop rows cols r c (Suc i) s"
  by (subst carve_loop.simps) (auto simp: carve_guard_def Let_def)

lemma carve_loop_rec:
  "i < length (deltas s) \<Longrightarrow> carve_guard rows cols r c i s \<Longrightarrow>
   carve_loop rows cols r c i s =
     Option.bind
       (carve_loop rows cols (r + fst (deltas s ! i)) (c + snd (deltas s ! i)) 0
          (carve_enter (r + fst (deltas s ! i)) (c + snd (deltas s ! i))
             (open_wall r c (r + fst (deltas s ! i)) (c + snd (deltas s ! i)) s)))
       (\<lambda>s2. carve_loop rows cols r c (Suc i) s2)"
  by (subst carve_loop.simps) (simp add: carve_guard_def Let_def)

lemma shuffle_from_pos:
  "0 < i \<Longrightarrow> shuffle_from i xs rg =
     shuffle_from (i - 1) (xs[i := xs ! fst (randbelow (Suc i) rg), fst (randbelow (Suc i) rg) := xs ! i])
       (snd (randbelow (Suc i) rg))"
  by (cases i) (simp_all add: Let_def)

lemmas astar_eval = astar_def cell_def py_index_def norm_index_def heappush_def heappop_def neighbors_def deltas4_def
  g_default_def heuristic_def astar_loop.simps reconstruct.simps

lemmas gen_eval = generate_maze_def carve_def carve_enter_def carve_loop_done carve_loop_skip carve_loop_rec
  carve_guard_def open_wall_def to_grid_def put2_def make_grid_def deltas4_def Random_def shuffle_def
  randbelow_def shuffle_from_pos

lemmas mut_eval = make_unsolvable_def close_trial_def Random_def shuffle_def truthy_def set_cell_def py_store_def
  all_cells_def py_take_def

section \<open>generate_maze on 2 by 3 rooms with seed 1\<close>

text \<open>
  A generator whose first fifteen answers for seed 1 are those of CPython's
  \<open>random.Random(1)\<close> to the calls \<open>_randbelow(4)\<close>, \<open>_randbelow(3)\<close>, \<open>_randbelow(2)\<close>
  of five successive shuffles of a four-element list.
\<close>

definition cpython_random :: "int \<Rightarrow> nat \<Rightarrow> nat" where
  "cpython_random seed k =
     (if seed = 1 \<and> k < 15 then [1, 2, 0, 2, 0, 1, 3, 1, 1, 1, 0, 1, 0, 1, 1] ! k else 0)"

text \<open>The wall cells between two rooms, and how many of them a grid has open.\<close>

definition walls_between :: "int \<Rightarrow> int \<Rightarrow> coord list" where
  "walls_between rows cols =
     map (\<lambda>(r, c). (2 * r + 1, 2 * c + 2)) (List.product [0 .. rows - 1] [0 .. cols - 2]) @
     map (\<lambda>(r, c). (2 * r + 2, 2 * c + 1)) (List.product [0 .. rows - 2] [0 .. cols - 1])"

definition opened_walls :: "grid \<Rightarrow> int \<Rightarrow> int \<Rightarrow> nat" where
  "opened_walls g rows cols = length (filter (\<lambda>p. cell g p = Inr 1) (walls_between rows cols))"

lemma generate_maze_2_3_seed1:
  "generate_maze cpython_random entropy 2 3 (Some 1) =
     Some (Inr [[0, 0, 0, 0, 0, 0, 0],
                [0, 1, 1, 1, 0, 1, 0],
                [0, 0, 0, 1, 0, 1, 0],
                [0, 0, 0, 1, 1, 1, 0],
                [0, 0, 0, 0, 0, 0, 0]])"
  apply (simp add: gen_eval cpython_random_def del: shuffle_from.simps(2))
  apply (simp add: eval_nat_numeral)
  done

text \<open>
  C1 (perfect maze). On 2 by 3 rooms with the generator above, \<open>generate_maze\<close> returns a
  grid in which only 4 of the walls between rooms are open, not \<open>2 * 3 - 1 = 5\<close>: the call
  for room (1, 1) shuffles the shared list \<open>deltas\<close> while the loop of room (0, 1) is still
  iterating over it, the loop of room (0, 0) never gets to try the direction of room
  (1, 0), and that room is never reached.
\<close>

theorem generate_maze_not_spanning:
  "generate_maze cpython_random entropy 2 3 (Some 1) =
     Some (Inr [[0, 0, 0, 0, 0, 0, 0],
                [0, 1, 1, 1, 0, 1, 0],
                [0, 0, 0, 1, 0, 1, 0],
                [0, 0, 0, 1, 1, 1, 0],
                [0, 0, 0, 0, 0, 0, 0]]) \<and>
   opened_walls [[0, 0, 0, 0, 0, 0, 0],
                 [0, 1, 1, 1, 0, 1, 0],
                 [0, 0, 0, 1, 0, 1, 0],
                 [0, 0, 0, 1, 1, 1, 0],
                 [0, 0, 0, 0, 0, 0, 0]] 2 3 = 4"
  by (simp add: generate_maze_2_3_seed1 opened_walls_def walls_between_def cell_def py_index_def norm_index_def
      upto.simps)

text \<open>
  C4 (shape and open rooms). On the same input the returned grid has the shape
  \<open>(2 * 2 + 1) \<times> (2 * 3 + 1)\<close>, but the cell of room (1, 0) is a wall.
\<close>

theorem generate_maze_room_left_closed:
  "\<exists>g. generate_maze cpython_random entropy 2 3 (Some 1) = Some (Inr g) \<and>
       map length g = [7, 7, 7, 7, 7] \<and> cell g (to_grid (1, 0)) = Inr 0"
  by (simp add: generate_maze_2_3_seed1 to_grid_def cell_def py_index_def norm_index_def)

section \<open>Determinism of generate_maze\<close>


section \<open>astar with goal equal to start\<close>

text \<open>
  C10 as stated (for every grid and every start, \<open>astar(grid, start, start)\<close> is
  \<open>[start]\<close>) fails on a wall cell: the guard returns \<open>None\<close>.
\<close>

theorem astar_same_cell_wall_counterexample:
  "astar [[0]] (0, 0) (0, 0) = Some (Inr None)"
  by (simp add: astar_def cell_def py_index_def norm_index_def)

text \<open>
  C10, amended: when \<open>start\<close> addresses a walkable cell, \<open>astar\<close> called with the goal
  equal to \<open>start\<close> returns the single-element path \<open>[start]\<close>.
\<close>

theorem astar_same_cell:
  "cell g start = Inr 1 \<Longrightarrow> astar g start start = Some (Inr (Some [start]))"
  by (simp add: astar_def astar_loop.simps heappush_def heappop_def reconstruct.simps)

theorem astar_same_cell_witness:
  "cell [[1]] (0, 0) = Inr 1 \<and> astar [[1]] (0, 0) (0, 0) = Some (Inr (Some [(0, 0)]))"
proof -
  have h: "cell [[1]] (0, 0) = Inr 1" by (simp add: cell_def py_index_def norm_index_def)
  show ?thesis using h astar_same_cell [OF h] by simp
qed

section \<open>make_unsolvable on adjacent endpoints\<close>

text \<open>
  C6 (start and end stay walkable). With start and end adjacent the path has no interior,
  the fallback candidate \<open>path[1]\<close> is the end cell itself, and \<open>make_unsolvable\<close> returns
  True having turned the end cell into a wall.
\<close>

theorem make_unsolvable_blocks_end:
  "make_unsolvable seeded entropy [[1, 1]] (0, 0) (0, 1) astar seed 100 = Some (Returned True, [[1, 0]])"
  by (simp add: mut_eval astar_eval)



section \<open>The mutators: errors and rollback\<close>

text \<open>
  What a trial, a trial loop and each mutator can end with. The only error of their own
  besides InvalidEndpoint is IndexError; a trial that does not return leaves the grid as
  it found it, since it writes back the value the cell had.
\<close>

lemmas mut_eval2 = make_unsolvable_def make_multiple_solutions_def close_trial_def open_trial_def
  Random_def shuffle_def randbelow_def truthy_def set_cell_def py_store_def all_cells_def py_take_def
  upto.simps

lemma norm_index_less: "norm_index n i = Some k \<Longrightarrow> k < n"
  by (auto simp: norm_index_def split: if_splits)

lemma py_index_error: "py_index xs i = Inl e \<Longrightarrow> e = IndexError"
  by (auto simp: py_index_def split: option.splits)

lemma py_store_error: "py_store xs i v = Inl e \<Longrightarrow> e = IndexError"
  by (auto simp: py_store_def split: option.splits)

lemma cell_error: "cell g p = Inl e \<Longrightarrow> e = IndexError"
  by (auto simp: cell_def split: sum.splits dest: py_index_error)

lemma set_cell_error: "set_cell g p v = Inl e \<Longrightarrow> e = IndexError"
  by (auto simp: set_cell_def split: sum.splits dest: py_index_error py_store_error)

lemma set_cell_restore:
  assumes "cell g p = Inr v" "set_cell g p w = Inr g1" "set_cell g1 p v = Inr g2"
  shows "g2 = g"
proof -
  obtain k where k: "norm_index (length g) (fst p) = Some k"
    using assms(1) by (auto simp: cell_def py_index_def split: option.splits)
  then have kl: "k < length g" by (rule norm_index_less)
  obtain j where j: "norm_index (length (g ! k)) (snd p) = Some j"
    using assms(1) k by (auto simp: cell_def py_index_def split: option.splits)
  have v: "v = g ! k ! j" using assms(1) k j by (simp add: cell_def py_index_def)
  have g1: "g1 = g[k := (g ! k)[j := w]]"
    using assms(2) k j by (simp add: set_cell_def py_index_def py_store_def)
  have "g2 = g1[k := (g1 ! k)[j := v]]"
    using assms(3) k j kl by (simp add: g1 set_cell_def py_index_def py_store_def)
  then show ?thesis using kl by (simp add: g1 v)
qed

lemma shuffle_from_set:
  "i < length xs \<Longrightarrow> set (fst (shuffle_from i xs rg)) = set xs"
proof (induction i arbitrary: xs rg)
  case 0
  then show ?case by simp
next
  case (Suc i)
  have "fst (randbelow (Suc (Suc i)) rg) < Suc (Suc i)"
    by (simp add: randbelow_def)
  then have "fst (randbelow (Suc (Suc i)) rg) < length xs"
    using Suc.prems by linarith
  then show ?case using Suc by (simp add: Let_def)
qed

lemma shuffle_set: "set (fst (shuffle xs rg)) = set xs"
  by (cases xs) (simp_all add: shuffle_def shuffle_from_set)


lemma wall_candidates_zero:
  "wall_candidates g rows cols ps acc = Inr cands \<Longrightarrow> (\<And>p. p \<in> set acc \<Longrightarrow> cell g p = Inr 0) \<Longrightarrow>
   q \<in> set cands \<Longrightarrow> cell g q = Inr 0"
proof (induction ps arbitrary: acc)
  case Nil
  then show ?case by simp
next
  case (Cons p ps)
  from Cons.prems(1) obtain v where v: "cell g p = Inr v"
    by (cases "cell g p") simp_all
  show ?case
  proof (cases "v = 0")
    case False
    with Cons.prems(1) v have "wall_candidates g rows cols ps acc = Inr cands" by simp
    from Cons.IH[OF this Cons.prems(2) Cons.prems(3)] show ?thesis by simp
  next
    case True
    from Cons.prems(1) v True obtain k where k: "count_walkable g rows cols p deltas4 0 = Inr k"
      by (cases "count_walkable g rows cols p deltas4 0") simp_all
    show ?thesis
    proof (cases "2 \<le> k")
      case T2: True
      with Cons.prems(1) v True k have r: "wall_candidates g rows cols ps (acc @ [p]) = Inr cands"
        by simp
      have "\<And>p'. p' \<in> set (acc @ [p]) \<Longrightarrow> cell g p' = Inr 0"
        using Cons.prems(2) v True by auto
      from Cons.IH[OF r this Cons.prems(3)] show ?thesis by simp
    next
      case F2: False
      with Cons.prems(1) v True k have "wall_candidates g rows cols ps acc = Inr cands" by simp
      from Cons.IH[OF this Cons.prems(2) Cons.prems(3)] show ?thesis by simp
    qed
  qed
qed


lemma open_trial_through:
  "open_trial af start end' orig p g = Some (None, g') \<Longrightarrow> cell g p = Inr 0 \<Longrightarrow> g' = g"
  unfolding open_trial_def
  by (auto split: sum.splits option.splits if_splits intro: set_cell_restore)


lemma open_trial_exit:
  "open_trial af start end' orig p g = Some (Some out, g') \<Longrightarrow>
     out = Raised IndexError \<or> (\<exists>e. out = OracleRaised e) \<or> out = Returned True"
  unfolding open_trial_def
  by (auto split: sum.splits option.splits if_splits dest: set_cell_error)


lemma close_trial_through:
  "close_trial af start end' p g = Some (None, g') \<Longrightarrow> g' = g"
  unfolding close_trial_def
  by (auto split: sum.splits option.splits if_splits intro: set_cell_restore)


lemma close_trial_exit:
  "close_trial af start end' p g = Some (Some out, g') \<Longrightarrow>
     out = Raised IndexError \<or> (\<exists>e. out = OracleRaised e) \<or>
     (out = Returned True \<and> (\<exists>p. af g' start end' = Some (Inr p) \<and> \<not> truthy p))"
  unfolding close_trial_def
  by (auto split: sum.splits option.splits if_splits dest: set_cell_error cell_error)

lemma try_open_false:
  "try_open af start end' orig mt t ps g = Some (Returned False, g') \<Longrightarrow>
   (\<And>p. p \<in> set ps \<Longrightarrow> cell g p = Inr 0) \<Longrightarrow> g' = g"
proof (induction ps arbitrary: t)
  case Nil
  then show ?case by simp
next
  case (Cons p ps)
  show ?case
  proof (cases "mt \<le> t")
    case True
    with Cons.prems(1) show ?thesis by simp
  next
    case False
    show ?thesis
    proof (cases "open_trial af start end' orig p g")
      case None
      with Cons.prems(1) False show ?thesis by simp
    next
      case (Some res)
      obtain ex g1 where res: "res = (ex, g1)" by (cases res)
      show ?thesis
      proof (cases ex)
        case None
        have "g1 = g" using open_trial_through[of af start end' orig p g g1] Some res None Cons.prems(2)
          by simp
        moreover have "try_open af start end' orig mt (t + 1) ps g1 = Some (Returned False, g')"
          using Cons.prems(1) False Some res None by simp
        ultimately show ?thesis using Cons.IH Cons.prems(2) by simp
      next
        case (Some out)
        then have "out = Returned False" using Cons.prems(1) False \<open>open_trial af start end' orig p g = Some res\<close> res
          by simp
        then show ?thesis
          using open_trial_exit[of af start end' orig p g out g1] \<open>open_trial af start end' orig p g = Some res\<close> res Some
          by auto
      qed
    qed
  qed
qed

lemma try_open_raised:
  "try_open af start end' orig mt t ps g = Some (Raised e, g') \<Longrightarrow> e = IndexError"
proof (induction ps arbitrary: t g)
  case Nil
  then show ?case by simp
next
  case (Cons p ps)
  show ?case
  proof (cases "mt \<le> t")
    case True
    with Cons.prems(1) show ?thesis by simp
  next
    case False
    show ?thesis
    proof (cases "open_trial af start end' orig p g")
      case None
      with Cons.prems(1) False show ?thesis by simp
    next
      case (Some res)
      obtain ex g1 where res: "res = (ex, g1)" by (cases res)
      show ?thesis
      proof (cases ex)
        case None
        then have "try_open af start end' orig mt (t + 1) ps g1 = Some (Raised e, g')"
          using Cons.prems(1) False Some res by simp
        then show ?thesis by (rule Cons.IH)
      next
        case (Some out)
        then have "out = Raised e" using Cons.prems(1) False \<open>open_trial af start end' orig p g = Some res\<close> res
          by simp
        then show ?thesis
          using open_trial_exit[of af start end' orig p g out g1] \<open>open_trial af start end' orig p g = Some res\<close> res Some
          by auto
      qed
    qed
  qed
qed


lemma block_path_result:
  "block_path af start end' mt t ps g = Some (ex, g') \<Longrightarrow>
   (ex = None \<and> g' = g) \<or>
   (\<exists>out. ex = Some out \<and>
      (out = Raised IndexError \<or> (\<exists>e. out = OracleRaised e) \<or>
       (out = Returned True \<and> (\<exists>p. af g' start end' = Some (Inr p) \<and> \<not> truthy p))))"
proof (induction ps arbitrary: t)
  case Nil
  then show ?case by simp
next
  case (Cons p ps)
  show ?case
  proof (cases "mt \<le> t")
    case True
    with Cons.prems(1) show ?thesis by simp
  next
    case False
    show ?thesis
    proof (cases "close_trial af start end' p g")
      case None
      with Cons.prems(1) False show ?thesis by simp
    next
      case (Some res)
      obtain ex1 g1 where res: "res = (ex1, g1)" by (cases res)
      show ?thesis
      proof (cases ex1)
        case None
        have "g1 = g" using close_trial_through[of af start end' p g g1] Some res None by simp
        moreover have "block_path af start end' mt (t + 1) ps g1 = Some (ex, g')"
          using Cons.prems(1) False Some res None by simp
        ultimately show ?thesis using Cons.IH by simp
      next
        case (Some out)
        then have "ex = Some out" "g' = g1"
          using Cons.prems(1) False \<open>close_trial af start end' p g = Some res\<close> res by simp_all
        then show ?thesis
          using close_trial_exit[of af start end' p g out g1] \<open>close_trial af start end' p g = Some res\<close> res Some
          by simp
      qed
    qed
  qed
qed

lemma block_any_result:
  "block_any af start end' ps g = Some (ex, g') \<Longrightarrow>
   (ex = None \<and> g' = g) \<or>
   (\<exists>out. ex = Some out \<and>
      (out = Raised IndexError \<or> (\<exists>e. out = OracleRaised e) \<or>
       (out = Returned True \<and> (\<exists>p. af g' start end' = Some (Inr p) \<and> \<not> truthy p))))"
proof (induction ps)
  case Nil
  then show ?case by simp
next
  case (Cons p ps)
  show ?case
  proof (cases "close_trial af start end' p g")
    case None
    with Cons.prems(1) show ?thesis by simp
  next
    case (Some res)
    obtain ex1 g1 where res: "res = (ex1, g1)" by (cases res)
    show ?thesis
    proof (cases ex1)
      case None
      have "g1 = g" using close_trial_through[of af start end' p g g1] Some res None by simp
      moreover have "block_any af start end' ps g1 = Some (ex, g')"
        using Cons.prems(1) Some res None by simp
      ultimately show ?thesis using Cons.IH by simp
    next
      case (Some out)
      then have "ex = Some out" "g' = g1"
        using Cons.prems(1) \<open>close_trial af start end' p g = Some res\<close> res by simp_all
      then show ?thesis
        using close_trial_exit[of af start end' p g out g1] \<open>close_trial af start end' p g = Some res\<close> res Some
        by simp
    qed
  qed
qed

lemma walkables_error: "walkables g start end' ps acc = Inl e \<Longrightarrow> e = IndexError"
proof (induction ps arbitrary: acc)
  case Nil
  then show ?case by simp
next
  case (Cons p ps)
  show ?case
  proof (cases "cell g p")
    case (Inl e')
    with Cons.prems cell_error[OF Inl] show ?thesis by simp
  next
    case (Inr v)
    with Cons.prems Cons.IH show ?thesis by (simp split: if_splits)
  qed
qed

lemma make_unsolvable_result:
  assumes mu: "make_unsolvable seeded entropy g start end' af seed mt = Some (out, g')"
  shows "(out = Raised InvalidEndpoint \<and> g' = g \<and> (cell g start \<noteq> Inr 1 \<or> cell g end' \<noteq> Inr 1)) \<or>
         out = Raised IndexError \<or> (\<exists>e. out = OracleRaised e) \<or>
         (out = Returned True \<and> (\<exists>p. af g' start end' = Some (Inr p) \<and> \<not> truthy p)) \<or>
         (out = Returned False \<and> g' = g)"
proof (cases "cell g start")
  case (Inl e)
  with mu cell_error[OF Inl] show ?thesis by (simp add: make_unsolvable_def)
next
  case vs: (Inr vs)
  show ?thesis
  proof (cases "vs = 1")
    case False
    with mu vs show ?thesis by (simp add: make_unsolvable_def)
  next
    case vs1: True
    show ?thesis
    proof (cases "cell g end'")
      case (Inl e)
      with mu vs vs1 cell_error[OF Inl] show ?thesis by (simp add: make_unsolvable_def)
    next
      case ve: (Inr ve)
      show ?thesis
      proof (cases "ve = 1")
        case False
        with mu vs vs1 ve show ?thesis by (simp add: make_unsolvable_def)
      next
        case ve1: True
        note guard = vs vs1 ve ve1
        show ?thesis
        proof (cases "af g start end'")
          case None
          with mu guard show ?thesis by (simp add: make_unsolvable_def)
        next
          case (Some r)
          show ?thesis
          proof (cases r)
            case (Inl e)
            with mu guard Some show ?thesis by (auto simp add: make_unsolvable_def)
          next
            case (Inr path)
            show ?thesis
            proof (cases "truthy path")
              case False
              with mu guard Some Inr show ?thesis by (auto simp add: make_unsolvable_def)
            next
              case True
              define cands where "cands = (let intermediates = butlast (tl (the path))
                 in if intermediates = [] then (if length (the path) > 1 then [the path ! 1] else [])
                    else intermediates)"
              define sh where "sh = shuffle cands (Random seeded entropy seed)"
              show ?thesis
              proof (cases "block_path af start end' mt 0 (fst sh) g")
                case None
                with mu guard Some Inr True show ?thesis
                  by (simp add: make_unsolvable_def Let_def sh_def cands_def)
              next
                case bp: (Some res)
                obtain ex g1 where res: "res = (ex, g1)" by (cases res)
                from block_path_result[of af start end' mt 0 "fst sh" g ex g1] bp res
                have r1: "(ex = None \<and> g1 = g) \<or>
                   (\<exists>out. ex = Some out \<and>
                      (out = Raised IndexError \<or> (\<exists>e. out = OracleRaised e) \<or>
                       (out = Returned True \<and> (\<exists>p. af g1 start end' = Some (Inr p) \<and> \<not> truthy p))))"
                  by simp
                show ?thesis
                proof (cases ex)
                  case (Some out1)
                  with mu guard \<open>af g start end' = Some r\<close> Inr True bp res
                  have "out = out1" "g' = g1"
                    by (simp_all add: make_unsolvable_def Let_def sh_def cands_def)
                  with r1 Some show ?thesis by auto
                next
                  case None
                  with r1 have g1: "g1 = g" by simp
                  show ?thesis
                  proof (cases "py_index g 0")
                    case (Inl e)
                    with mu guard \<open>af g start end' = Some r\<close> Inr True bp res None g1 py_index_error[OF Inl]
                    show ?thesis
                      by (simp add: make_unsolvable_def Let_def sh_def cands_def)
                  next
                    case row0: (Inr row0)
                    show ?thesis
                    proof (cases "walkables g start end' (all_cells (int (length g)) (int (length row0))) []")
                      case (Inl e)
                      with mu guard \<open>af g start end' = Some r\<close> Inr True bp res None g1 row0
                      have "out = Raised e"
                        by (simp add: make_unsolvable_def Let_def sh_def cands_def)
                      moreover have "e = IndexError" using walkables_error[OF Inl] .
                      ultimately show ?thesis by simp
                    next
                      case aw: (Inr aw)
                      let ?cs = "py_take mt (fst (shuffle aw (snd sh)))"
                      show ?thesis
                      proof (cases "block_any af start end' ?cs g")
                        case None
                        with mu guard \<open>af g start end' = Some r\<close> Inr True bp res \<open>ex = None\<close> g1 row0 aw
                        show ?thesis
                          by (simp add: make_unsolvable_def Let_def sh_def cands_def)
                      next
                        case ba: (Some res2)
                        obtain ex2 g2 where res2: "res2 = (ex2, g2)" by (cases res2)
                        from block_any_result[of af start end' ?cs g ex2 g2] ba res2
                        have r2: "(ex2 = None \<and> g2 = g) \<or>
                           (\<exists>out. ex2 = Some out \<and>
                              (out = Raised IndexError \<or> (\<exists>e. out = OracleRaised e) \<or>
                               (out = Returned True \<and> (\<exists>p. af g2 start end' = Some (Inr p) \<and> \<not> truthy p))))"
                          by simp
                        show ?thesis
                        proof (cases ex2)
                          case None
                          with mu guard \<open>af g start end' = Some r\<close> Inr True bp res \<open>ex = None\<close> g1 row0 aw ba res2
                          have "out = Returned False" "g' = g2"
                            by (simp_all add: make_unsolvable_def Let_def sh_def cands_def)
                          with r2 None show ?thesis by simp
                        next
                          case (Some out2)
                          with mu guard \<open>af g start end' = Some r\<close> Inr True bp res \<open>ex = None\<close> g1 row0 aw ba res2
                          have "out = out2" "g' = g2"
                            by (simp_all add: make_unsolvable_def Let_def sh_def cands_def)
                          with r2 Some show ?thesis by auto
                        qed
                      qed
                    qed
                  qed
                qed
              qed
            qed
          qed
        qed
      qed
    qed
  qed
qed

lemma count_walkable_error: "count_walkable g rows cols p ds k = Inl e \<Longrightarrow> e = IndexError"
proof (induction ds arbitrary: k)
  case Nil
  then show ?case by simp
next
  case (Cons d ds)
  show ?case
  proof (cases "cell g (fst p + fst d, snd p + snd d)")
    case (Inl e')
    with Cons.prems Cons.IH cell_error[OF Inl] show ?thesis
      by (simp add: Let_def split: if_splits)
  next
    case (Inr v)
    with Cons.prems Cons.IH show ?thesis by (simp add: Let_def split: if_splits)
  qed
qed

lemma wall_candidates_error: "wall_candidates g rows cols ps acc = Inl e \<Longrightarrow> e = IndexError"
proof (induction ps arbitrary: acc)
  case Nil
  then show ?case by simp
next
  case (Cons p ps)
  show ?case
  proof (cases "cell g p")
    case (Inl e')
    with Cons.prems cell_error[OF Inl] show ?thesis by simp
  next
    case v: (Inr v)
    show ?thesis
    proof (cases "count_walkable g rows cols p deltas4 0")
      case (Inl e')
      with Cons.prems Cons.IH v count_walkable_error[OF Inl] show ?thesis
        by (simp split: if_splits)
    next
      case (Inr k)
      with Cons.prems Cons.IH v show ?thesis by (simp split: if_splits)
    qed
  qed
qed

lemma make_multiple_solutions_result:
  assumes mm: "make_multiple_solutions seeded entropy g start end' af mt seed = Some (out, g')"
  shows "(out = Raised InvalidEndpoint \<and> g' = g \<and> (cell g start \<noteq> Inr 1 \<or> cell g end' \<noteq> Inr 1)) \<or>
         out = Raised IndexError \<or> (\<exists>e. out = OracleRaised e) \<or> out = Returned True \<or>
         (out = Returned False \<and> g' = g)"
proof (cases "cell g start")
  case (Inl e)
  with mm cell_error[OF Inl] show ?thesis by (simp add: make_multiple_solutions_def)
next
  case vs: (Inr vs)
  show ?thesis
  proof (cases "vs = 1")
    case False
    with mm vs show ?thesis by (simp add: make_multiple_solutions_def)
  next
    case vs1: True
    show ?thesis
    proof (cases "cell g end'")
      case (Inl e)
      with mm vs vs1 cell_error[OF Inl] show ?thesis by (simp add: make_multiple_solutions_def)
    next
      case ve: (Inr ve)
      show ?thesis
      proof (cases "ve = 1")
        case False
        with mm vs vs1 ve show ?thesis by (simp add: make_multiple_solutions_def)
      next
        case ve1: True
        note guard = vs vs1 ve ve1
        show ?thesis
        proof (cases "af g start end'")
          case None
          with mm guard show ?thesis by (simp add: make_multiple_solutions_def)
        next
          case (Some r)
          show ?thesis
          proof (cases r)
            case (Inl e)
            with mm guard Some show ?thesis by (auto simp add: make_multiple_solutions_def)
          next
            case (Inr orig)
            show ?thesis
            proof (cases "truthy orig")
              case False
              with mm guard Some Inr show ?thesis by (auto simp add: make_multiple_solutions_def)
            next
              case True
              show ?thesis
              proof (cases "py_index g 0")
                case (Inl e)
                with mm guard Some Inr True py_index_error[OF Inl] show ?thesis
                  by (simp add: make_multiple_solutions_def)
              next
                case row0: (Inr row0)
                let ?rows = "int (length g)" and ?cols = "int (length row0)"
                show ?thesis
                proof (cases "wall_candidates g ?rows ?cols (all_cells ?rows ?cols) []")
                  case (Inl e)
                  with mm guard Some Inr True row0 wall_candidates_error[OF Inl] show ?thesis
                    by (simp add: make_multiple_solutions_def)
                next
                  case cands: (Inr cands)
                  let ?ps = "fst (shuffle cands (Random seeded entropy seed))"
                  have zero: "\<And>p. p \<in> set ?ps \<Longrightarrow> cell g p = Inr 0"
                    using wall_candidates_zero[OF cands] by (simp add: shuffle_set)
                  have t: "try_open af start end' orig mt 0 ?ps g = Some (out, g')"
                    using mm guard Some Inr True row0 cands
                    by (simp add: make_multiple_solutions_def Let_def)
                  show ?thesis
                  proof (cases out)
                    case (Returned b)
                    with t try_open_false[of af start end' orig mt 0 ?ps g g'] zero show ?thesis
                      by (cases b) auto
                  next
                    case (Raised e)
                    with t try_open_raised[of af start end' orig mt 0 ?ps g e g'] show ?thesis by simp
                  next
                    case (OracleRaised e)
                    then show ?thesis by simp
                  qed
                qed
              qed
            qed
          qed
        qed
      qed
    qed
  qed
qed

text \<open>
  C5 (InvalidEndpoint and rollback). For \<open>start\<close> and \<open>end\<close> that address cells of the
  grid, \<open>make_multiple_solutions\<close> and \<open>make_unsolvable\<close> raise InvalidEndpoint exactly when
  one of the two cells is not 1, the grid is then the one that was passed, and whenever
  either function returns False the grid is the one that was passed.
\<close>

theorem mutators_endpoint_error_and_rollback:
  assumes "cell g start = Inr vs" and "cell g end' = Inr ve"
  shows "(make_multiple_solutions seeded entropy g start end' af mt seed = Some (Raised InvalidEndpoint, g)
            \<longleftrightarrow> vs \<noteq> 1 \<or> ve \<noteq> 1) \<and>
         (make_unsolvable seeded entropy g start end' af seed mt = Some (Raised InvalidEndpoint, g)
            \<longleftrightarrow> vs \<noteq> 1 \<or> ve \<noteq> 1) \<and>
         (\<forall>g'. make_multiple_solutions seeded entropy g start end' af mt seed = Some (Raised InvalidEndpoint, g')
            \<longrightarrow> g' = g) \<and>
         (\<forall>g'. make_unsolvable seeded entropy g start end' af seed mt = Some (Raised InvalidEndpoint, g')
            \<longrightarrow> g' = g) \<and>
         (\<forall>g'. make_multiple_solutions seeded entropy g start end' af mt seed = Some (Returned False, g')
            \<longrightarrow> g' = g) \<and>
         (\<forall>g'. make_unsolvable seeded entropy g start end' af seed mt = Some (Returned False, g')
            \<longrightarrow> g' = g)"
proof -
  have a: "vs \<noteq> 1 \<or> ve \<noteq> 1 \<Longrightarrow>
      make_multiple_solutions seeded entropy g start end' af mt seed = Some (Raised InvalidEndpoint, g)"
    using assms by (auto simp: make_multiple_solutions_def)
  have b: "vs \<noteq> 1 \<or> ve \<noteq> 1 \<Longrightarrow>
      make_unsolvable seeded entropy g start end' af seed mt = Some (Raised InvalidEndpoint, g)"
    using assms by (auto simp: make_unsolvable_def)
  have c: "make_multiple_solutions seeded entropy g start end' af mt seed = Some (Raised InvalidEndpoint, g')
      \<Longrightarrow> g' = g \<and> (vs \<noteq> 1 \<or> ve \<noteq> 1)" for g'
    using make_multiple_solutions_result[of seeded entropy g start end' af mt seed "Raised InvalidEndpoint" g'] assms
    by auto
  have d: "make_unsolvable seeded entropy g start end' af seed mt = Some (Raised InvalidEndpoint, g')
      \<Longrightarrow> g' = g \<and> (vs \<noteq> 1 \<or> ve \<noteq> 1)" for g'
    using make_unsolvable_result[of seeded entropy g start end' af seed mt "Raised InvalidEndpoint" g'] assms
    by auto
  have e: "make_multiple_solutions seeded entropy g start end' af mt seed = Some (Returned False, g')
      \<Longrightarrow> g' = g" for g'
    using make_multiple_solutions_result[of seeded entropy g start end' af mt seed "Returned False" g']
    by auto
  have f: "make_unsolvable seeded entropy g start end' af seed mt = Some (Returned False, g')
      \<Longrightarrow> g' = g" for g'
    using make_unsolvable_result[of seeded entropy g start end' af seed mt "Returned False" g']
    by auto
  show ?thesis using a b c d e f by blast
qed

theorem mutators_endpoint_error_and_rollback_witness:
  "cell [[1, 0]] (0, 0) = Inr 1 \<and> cell [[1, 0]] (0, 1) = Inr 0 \<and>
   make_multiple_solutions (\<lambda>k i. 0) (\<lambda>i. 0) [[1, 0]] (0, 0) (0, 1) astar 100 None
     = Some (Raised InvalidEndpoint, [[1, 0]]) \<and>
   make_unsolvable (\<lambda>k i. 0) (\<lambda>i. 0) [[1, 0]] (0, 0) (0, 1) astar None 100
     = Some (Raised InvalidEndpoint, [[1, 0]]) \<and>
   cell [[1, 1], [1, 1]] (0, 0) = Inr 1 \<and> cell [[1, 1], [1, 1]] (1, 1) = Inr 1 \<and>
   make_multiple_solutions (\<lambda>k i. 0) (\<lambda>i. 0) [[1, 1], [1, 1]] (0, 0) (1, 1) astar 100 None
     = Some (Returned False, [[1, 1], [1, 1]]) \<and>
   make_unsolvable (\<lambda>k i. 0) (\<lambda>i. 0) [[1, 1], [1, 1]] (0, 0) (1, 1) astar None 100
     = Some (Returned False, [[1, 1], [1, 1]])"
proof -
  have a: "cell [[1, 0]] (0, 0) = Inr 1" and b: "cell [[1, 0]] (0, 1) = Inr 0"
    and c: "cell [[1, 1], [1, 1]] (0, 0) = Inr 1" and d: "cell [[1, 1], [1, 1]] (1, 1) = Inr 1"
    by (simp_all add: cell_def py_index_def norm_index_def)
  have e: "make_multiple_solutions (\<lambda>k i. 0) (\<lambda>i. 0) [[1, 1], [1, 1]] (0, 0) (1, 1) astar 100 None
     = Some (Returned False, [[1, 1], [1, 1]])"
    by (simp add: mut_eval2 astar_eval)
  have f: "make_unsolvable (\<lambda>k i. 0) (\<lambda>i. 0) [[1, 1], [1, 1]] (0, 0) (1, 1) astar None 100
     = Some (Returned False, [[1, 1], [1, 1]])"
    by (simp add: mut_eval2 astar_eval)
  show ?thesis
    using mutators_endpoint_error_and_rollback [OF a b, where seeded = "\<lambda>k i. 0"
          and entropy = "\<lambda>i. 0" and af = astar and mt = 100 and seed = None]
      mutators_endpoint_error_and_rollback [OF c d, where seeded = "\<lambda>k i. 0"
          and entropy = "\<lambda>i. 0" and af = astar and mt = 100 and seed = None]
      a b c d e f
    by simp
qed

text \<open>
  What True means for the injected path finder. When both endpoints are walkable and the
  path finder reports no path, \<open>make_unsolvable\<close> returns True and leaves the grid as it
  is; and whenever it returns True, the path finder reports no path between start and end
  on the resulting grid.
\<close>

lemma make_unsolvable_reported:
  "(cell g start = Inr 1 \<and> cell g end' = Inr 1 \<and> af g start end' = Some (Inr p) \<and> \<not> truthy p
      \<longrightarrow> make_unsolvable seeded entropy g start end' af seed mt = Some (Returned True, g)) \<and>
   (\<forall>g'. make_unsolvable seeded entropy g start end' af seed mt = Some (Returned True, g')
      \<longrightarrow> (\<exists>q. af g' start end' = Some (Inr q) \<and> \<not> truthy q))"
proof -
  have "\<exists>q. af g' start end' = Some (Inr q) \<and> \<not> truthy q"
    if "make_unsolvable seeded entropy g start end' af seed mt = Some (Returned True, g')" for g'
    using make_unsolvable_result[OF that] by auto
  then show ?thesis by (auto simp: make_unsolvable_def)
qed

section \<open>A* search: walks through the neighbour relation\<close>

text \<open>
  The search moves along the edges that \<open>_neighbors\<close> yields. A walk is a non-empty list of
  coordinates in which every element is among the neighbours of its predecessor. Every
  neighbour of a coordinate is 4-adjacent to it, lies in bounds and holds 1, and the
  Manhattan heuristic changes by at most one along an edge.
\<close>

definition nbrs_of :: "grid \<Rightarrow> coord \<Rightarrow> coord list" where
  "nbrs_of g p = (case neighbors g p of Inl e \<Rightarrow> [] | Inr ns \<Rightarrow> ns)"

fun walk :: "grid \<Rightarrow> coord list \<Rightarrow> bool" where
  "walk g [] = False"
| "walk g [p] = True"
| "walk g (p # q # ps) = (q \<in> set (nbrs_of g p) \<and> walk g (q # ps))"

definition adjacent4 :: "coord \<Rightarrow> coord \<Rightarrow> bool" where
  "adjacent4 a b = (\<bar>fst a - fst b\<bar> + \<bar>snd a - snd b\<bar> = 1)"

lemma neighbors_loop_elem:
  "neighbors_loop g rows cols p ds acc = Inr nbrs \<Longrightarrow> n \<in> set nbrs \<Longrightarrow>
   set ds \<subseteq> set deltas4 \<Longrightarrow> n \<in> set acc \<or> (adjacent4 p n \<and> cell g n = Inr 1)"
proof (induction ds arbitrary: acc)
  case Nil
  then show ?case by simp
next
  case (Cons d ds)
  let ?m = "(fst p + fst d, snd p + snd d)"
  have sub: "set ds \<subseteq> set deltas4" and d: "d \<in> set deltas4"
    using Cons.prems(3) by auto
  have adj: "adjacent4 p ?m"
    using d by (auto simp: adjacent4_def deltas4_def)
  show ?case
  proof (cases "0 \<le> fst ?m \<and> fst ?m < rows \<and> 0 \<le> snd ?m \<and> snd ?m < cols")
    case False
    then have "neighbors_loop g rows cols p ds acc = Inr nbrs"
      using Cons.prems(1) by (auto simp: Let_def)
    from Cons.IH[OF this Cons.prems(2) sub] show ?thesis .
  next
    case True
    then obtain v where v: "cell g ?m = Inr v"
      using Cons.prems(1) by (cases "cell g ?m") (auto simp: Let_def)
    show ?thesis
    proof (cases "v = 1")
      case False
      then have "neighbors_loop g rows cols p ds acc = Inr nbrs"
        using Cons.prems(1) True v by (auto simp: Let_def)
      from Cons.IH[OF this Cons.prems(2) sub] show ?thesis .
    next
      case v1: True
      then have "neighbors_loop g rows cols p ds (acc @ [?m]) = Inr nbrs"
        using Cons.prems(1) True v by (auto simp: Let_def)
      from Cons.IH[OF this Cons.prems(2) sub]
      have "n \<in> set (acc @ [?m]) \<or> (adjacent4 p n \<and> cell g n = Inr 1)" .
      then show ?thesis using v v1 adj by auto
    qed
  qed
qed


lemma nbrs_of_elem:
  assumes "n \<in> set (nbrs_of g p)"
  shows "adjacent4 p n" and "cell g n = Inr 1" and "n \<in> bounds g"
proof -
  from assms obtain ns where ns: "neighbors g p = Inr ns" and n: "n \<in> set ns"
    by (cases "neighbors g p") (auto simp: nbrs_of_def)
  from ns obtain row0 :: "int list" where
    l: "neighbors_loop g (int (length g)) (int (length row0)) p deltas4 [] = Inr ns"
    by (cases "py_index g 0") (auto simp: neighbors_def)
  from neighbors_loop_elem[OF l n] show "adjacent4 p n" and "cell g n = Inr 1" by auto
  from neighbors_bounds[OF ns] n show "n \<in> bounds g" by auto
qed

lemma heuristic_adjacent: "adjacent4 p n \<Longrightarrow> heuristic p goal \<le> 1 + heuristic n goal"
  by (auto simp: adjacent4_def heuristic_def)

lemma walk_append:
  "walk g w \<Longrightarrow> n \<in> set (nbrs_of g (last w)) \<Longrightarrow> walk g (w @ [n])"
  by (induction g w rule: walk.induct) auto

lemma walk_heuristic:
  "walk g w \<Longrightarrow> heuristic (hd w) goal \<le> int (length w) - 1 + heuristic (last w) goal"
proof (induction g w rule: walk.induct)
  case (3 g p q ps)
  then have "heuristic q goal \<le> int (length (q # ps)) - 1 + heuristic (last (q # ps)) goal"
    by simp
  moreover have "heuristic p goal \<le> 1 + heuristic q goal"
    using 3(2) nbrs_of_elem(1)[of q g p] heuristic_adjacent by simp
  ultimately show ?case by simp
qed simp_all

lemma walk_split:
  "walk g (xs @ a # b # ys) \<longleftrightarrow> walk g (xs @ [a]) \<and> b \<in> set (nbrs_of g a) \<and> walk g (b # ys)"
proof (induction xs)
  case Nil
  show ?case by simp
next
  case (Cons x xs)
  show ?case
  proof (cases xs)
    case Nil
    then show ?thesis by auto
  next
    case (Cons y zs)
    with Cons.IH show ?thesis by auto
  qed
qed

lemma walk_cross:
  "walk g w \<Longrightarrow> hd w \<in> C \<Longrightarrow> last w \<notin> C \<Longrightarrow>
   \<exists>xs a b ys. w = xs @ a # b # ys \<and> a \<in> C \<and> b \<notin> C"
proof (induction g w rule: walk.induct)
  case (3 g p q ps)
  show ?case
  proof (cases "q \<in> C")
    case False
    with 3(3) have "p # q # ps = [] @ p # q # ps \<and> p \<in> C \<and> q \<notin> C" by simp
    then show ?thesis by blast
  next
    case True
    with 3 obtain xs a b ys where "q # ps = xs @ a # b # ys" "a \<in> C" "b \<notin> C" by auto
    then have "p # q # ps = (p # xs) @ a # b # ys \<and> a \<in> C \<and> b \<notin> C" by simp
    then show ?thesis by blast
  qed
qed simp_all

lemma walk_step: "walk g w \<Longrightarrow> Suc i < length w \<Longrightarrow> w ! Suc i \<in> set (nbrs_of g (w ! i))"
proof (induction g w arbitrary: i rule: walk.induct)
  case (3 g p q ps)
  then show ?case by (cases i) simp_all
qed simp_all

section \<open>A* search: one relaxation\<close>

text \<open>
  \<open>improve\<close> is the update that the loop body applies to a neighbour whose tentative
  g-score is better than the recorded one. A property that holds before the \<open>for\<close> loop
  and is kept by every such update holds after it, and the loop raises no KeyError once
  the current node has a g-score.
\<close>

definition improve :: "coord \<Rightarrow> coord \<Rightarrow> nat \<Rightarrow> coord \<Rightarrow> astar_state \<Rightarrow> astar_state" where
  "improve goal cur k nbr s =
     s\<lparr>came_from := (came_from s)(nbr \<mapsto> cur),
       gscore := (gscore s)(nbr \<mapsto> Suc k),
       open_set := heappush (open_set s) (int (Suc k) + heuristic nbr goal, nbr)\<rparr>"

lemma relax_Cons:
  "relax goal cur (nbr # ns) s =
     (if nbr \<in> closed s then relax goal cur ns s
      else (case gscore s cur of
              None \<Rightarrow> Inl KeyError
            | Some k \<Rightarrow> if Suc k < gval s nbr then relax goal cur ns (improve goal cur k nbr s)
                        else relax goal cur ns s))"
  by (simp add: improve_def gval_def Let_def split: option.splits)

declare relax.simps(2) [simp del]

lemma improve_simps [simp]:
  "closed (improve goal cur k nbr s) = closed s"
  "gscore (improve goal cur k nbr s) = (gscore s)(nbr \<mapsto> Suc k)"
  "came_from (improve goal cur k nbr s) = (came_from s)(nbr \<mapsto> cur)"
  "open_set (improve goal cur k nbr s) = (int (Suc k) + heuristic nbr goal, nbr) # open_set s"
  by (simp_all add: improve_def heappush_def)

lemma relax_rule:
  assumes "relax goal cur ns s = Inr s'" and "P s"
    and step: "\<And>s nbr k. P s \<Longrightarrow> nbr \<in> set ns \<Longrightarrow> nbr \<notin> closed s \<Longrightarrow> gscore s cur = Some k \<Longrightarrow>
                 Suc k < gval s nbr \<Longrightarrow> P (improve goal cur k nbr s)"
  shows "P s'"
  using assms(1,2) step
proof (induction ns arbitrary: s)
  case Nil
  then show ?case by simp
next
  case (Cons nbr ns)
  have step': "\<And>s nbr k. P s \<Longrightarrow> nbr \<in> set ns \<Longrightarrow> nbr \<notin> closed s \<Longrightarrow> gscore s cur = Some k \<Longrightarrow>
                 Suc k < gval s nbr \<Longrightarrow> P (improve goal cur k nbr s)"
    using Cons.prems(3) by simp
  show ?case
  proof (cases "nbr \<in> closed s")
    case True
    then have "relax goal cur ns s = Inr s'" using Cons.prems(1) by (simp add: relax_Cons)
    from Cons.IH[OF this Cons.prems(2) step'] show ?thesis .
  next
    case False
    then obtain k where k: "gscore s cur = Some k"
      using Cons.prems(1) by (cases "gscore s cur") (auto simp: relax_Cons)
    show ?thesis
    proof (cases "Suc k < gval s nbr")
      case True
      then have r: "relax goal cur ns (improve goal cur k nbr s) = Inr s'"
        using Cons.prems(1) False k by (simp add: relax_Cons)
      have "P (improve goal cur k nbr s)"
        using Cons.prems(3)[OF Cons.prems(2) _ False k True] by simp
      from Cons.IH[OF r this step'] show ?thesis .
    next
      case F2: False
      then have "relax goal cur ns s = Inr s'" using Cons.prems(1) False k by (simp add: relax_Cons)
      from Cons.IH[OF this Cons.prems(2) step'] show ?thesis .
    qed
  qed
qed

lemma relax_total:
  assumes "gscore s cur = Some kc" and "cur \<in> closed s"
  shows "\<exists>s'. relax goal cur ns s = Inr s'"
  using assms
proof (induction ns arbitrary: s)
  case Nil
  then show ?case by simp
next
  case (Cons nbr ns)
  show ?case
  proof (cases "nbr \<in> closed s")
    case True
    with Cons show ?thesis by (simp add: relax_Cons)
  next
    case False
    then have ne: "nbr \<noteq> cur" using Cons.prems(2) by auto
    show ?thesis
    proof (cases "Suc kc < gval s nbr")
      case True
      have "\<exists>s'. relax goal cur ns (improve goal cur kc nbr s) = Inr s'"
        by (rule Cons.IH) (use Cons.prems ne in simp_all)
      then show ?thesis using False True Cons.prems(1) by (simp add: relax_Cons)
    next
      case F2: False
      with Cons False show ?thesis by (simp add: relax_Cons)
    qed
  qed
qed

section \<open>A* search: invariants\<close>

text \<open>
  Four invariants of the main loop. \<open>inv_chain\<close>: parent pointers lead along edges
  from closed nodes, lower the g-score by one, and every g-score is below the default
  1000000. \<open>inv_open\<close>: heap entries never undercut g plus heuristic of their node and every
  scored node that is not closed has an entry at most that large. \<open>inv_closed\<close>: the
  g-score of a closed node is the length of a shortest walk to it. \<open>inv_front\<close>: a
  neighbour of an expanded node has a g-score at most one larger, unless that would reach
  the default.
\<close>

definition inv_chain :: "grid \<Rightarrow> coord \<Rightarrow> astar_state \<Rightarrow> bool" where
  "inv_chain g start s \<longleftrightarrow>
     start \<in> closed s \<and> gscore s start = Some 0 \<and> came_from s start = None \<and>
     (\<forall>n p. came_from s n = Some p \<longrightarrow>
        p \<in> closed s \<and> n \<in> set (nbrs_of g p) \<and> (\<exists>k. gscore s p = Some k \<and> gscore s n = Some (Suc k))) \<and>
     (\<forall>n. gscore s n \<noteq> None \<longrightarrow> n \<noteq> start \<longrightarrow> came_from s n \<noteq> None) \<and>
     (\<forall>n k. gscore s n = Some k \<longrightarrow> k < g_default)"

definition inv_open :: "coord \<Rightarrow> astar_state \<Rightarrow> bool" where
  "inv_open goal s \<longleftrightarrow>
     (\<forall>f n. (f, n) \<in> set (open_set s) \<longrightarrow> (\<exists>k. gscore s n = Some k \<and> int k + heuristic n goal \<le> f)) \<and>
     (\<forall>n k. gscore s n = Some k \<longrightarrow> n \<notin> closed s \<longrightarrow>
        (\<exists>f. (f, n) \<in> set (open_set s) \<and> f \<le> int k + heuristic n goal))"

definition inv_closed :: "grid \<Rightarrow> coord \<Rightarrow> astar_state \<Rightarrow> bool" where
  "inv_closed g start s \<longleftrightarrow>
     (\<forall>n\<in>closed s. \<exists>k. gscore s n = Some k \<and>
        (\<forall>w. walk g w \<longrightarrow> hd w = start \<longrightarrow> last w = n \<longrightarrow> Suc k \<le> length w))"

definition inv_front :: "grid \<Rightarrow> coord set \<Rightarrow> astar_state \<Rightarrow> bool" where
  "inv_front g D s \<longleftrightarrow>
     (\<forall>n\<in>D. \<forall>m\<in>set (nbrs_of g n). m \<notin> closed s \<longrightarrow>
        (\<forall>k. gscore s n = Some k \<longrightarrow> Suc k < g_default \<longrightarrow> (\<exists>j. gscore s m = Some j \<and> j \<le> Suc k)))"

lemma inv_chainD:
  assumes "inv_chain g start s"
  shows "start \<in> closed s" and "gscore s start = Some 0" and "came_from s start = None"
    and "came_from s n = Some p \<Longrightarrow> p \<in> closed s"
    and "came_from s n = Some p \<Longrightarrow> n \<in> set (nbrs_of g p)"
    and "came_from s n = Some p \<Longrightarrow> \<exists>k. gscore s p = Some k \<and> gscore s n = Some (Suc k)"
    and "gscore s n = Some k \<Longrightarrow> n \<noteq> start \<Longrightarrow> \<exists>p. came_from s n = Some p"
    and "gscore s n = Some k \<Longrightarrow> k < g_default"
  using assms unfolding inv_chain_def by blast+

lemma inv_chainI:
  assumes "start \<in> closed s" and "gscore s start = Some 0" and "came_from s start = None"
    and "\<And>n p. came_from s n = Some p \<Longrightarrow>
           p \<in> closed s \<and> n \<in> set (nbrs_of g p) \<and> (\<exists>k. gscore s p = Some k \<and> gscore s n = Some (Suc k))"
    and "\<And>n k. gscore s n = Some k \<Longrightarrow> n \<noteq> start \<Longrightarrow> \<exists>p. came_from s n = Some p"
    and "\<And>n k. gscore s n = Some k \<Longrightarrow> k < g_default"
  shows "inv_chain g start s"
  unfolding inv_chain_def using assms by blast

lemma inv_openD:
  assumes "inv_open goal s"
  shows "(f, n) \<in> set (open_set s) \<Longrightarrow> \<exists>k. gscore s n = Some k \<and> int k + heuristic n goal \<le> f"
    and "gscore s n = Some k \<Longrightarrow> n \<notin> closed s \<Longrightarrow>
           \<exists>f. (f, n) \<in> set (open_set s) \<and> f \<le> int k + heuristic n goal"
  using assms unfolding inv_open_def by blast+

lemma inv_openI:
  assumes "\<And>f n. (f, n) \<in> set (open_set s) \<Longrightarrow> \<exists>k. gscore s n = Some k \<and> int k + heuristic n goal \<le> f"
    and "\<And>n k. gscore s n = Some k \<Longrightarrow> n \<notin> closed s \<Longrightarrow>
           \<exists>f. (f, n) \<in> set (open_set s) \<and> f \<le> int k + heuristic n goal"
  shows "inv_open goal s"
  unfolding inv_open_def using assms by blast

lemma inv_closedD:
  assumes "inv_closed g start s" "n \<in> closed s"
  shows "\<exists>k. gscore s n = Some k \<and> (\<forall>w. walk g w \<longrightarrow> hd w = start \<longrightarrow> last w = n \<longrightarrow> Suc k \<le> length w)"
  using assms unfolding inv_closed_def by blast

lemma inv_closedI:
  assumes "\<And>n. n \<in> closed s \<Longrightarrow>
     \<exists>k. gscore s n = Some k \<and> (\<forall>w. walk g w \<longrightarrow> hd w = start \<longrightarrow> last w = n \<longrightarrow> Suc k \<le> length w)"
  shows "inv_closed g start s"
  unfolding inv_closed_def using assms by blast

lemma inv_frontD:
  assumes "inv_front g D s" "n \<in> D" "m \<in> set (nbrs_of g n)" "m \<notin> closed s"
    "gscore s n = Some k" "Suc k < g_default"
  shows "\<exists>j. gscore s m = Some j \<and> j \<le> Suc k"
  using assms unfolding inv_front_def by blast

lemma inv_frontI:
  assumes "\<And>n m k. n \<in> D \<Longrightarrow> m \<in> set (nbrs_of g n) \<Longrightarrow> m \<notin> closed s \<Longrightarrow>
     gscore s n = Some k \<Longrightarrow> Suc k < g_default \<Longrightarrow> \<exists>j. gscore s m = Some j \<and> j \<le> Suc k"
  shows "inv_front g D s"
  unfolding inv_front_def using assms by blast

lemma gval_le_default: "inv_chain g start s \<Longrightarrow> gval s n \<le> g_default"
proof (cases "gscore s n")
  case None
  then show ?thesis by (simp add: gval_def)
next
  case (Some k)
  assume "inv_chain g start s"
  from inv_chainD(8)[OF this Some] Some show ?thesis by (simp add: gval_def)
qed

lemma improve_chain:
  assumes "inv_chain g start s" "nbr \<notin> closed s" "cur \<in> closed s" "gscore s cur = Some k"
    "nbr \<in> set (nbrs_of g cur)" "Suc k < gval s nbr"
  shows "inv_chain g start (improve goal cur k nbr s)"
proof (rule inv_chainI)
  note D = inv_chainD[OF assms(1)]
  have ne: "nbr \<noteq> start" "nbr \<noteq> cur" using D(1) assms(2,3) by auto
  have lt: "Suc k < g_default" using assms(6) gval_le_default[OF assms(1), of nbr] by simp
  show "start \<in> closed (improve goal cur k nbr s)" using D(1) by simp
  show "gscore (improve goal cur k nbr s) start = Some 0" using D(2) ne by simp
  show "came_from (improve goal cur k nbr s) start = None" using D(3) ne by simp
  show "p \<in> closed (improve goal cur k nbr s) \<and> n \<in> set (nbrs_of g p) \<and>
        (\<exists>j. gscore (improve goal cur k nbr s) p = Some j \<and> gscore (improve goal cur k nbr s) n = Some (Suc j))"
    if h: "came_from (improve goal cur k nbr s) n = Some p" for n p
  proof (cases "n = nbr")
    case True
    with h have "p = cur" by simp
    with True assms ne show ?thesis by simp
  next
    case False
    with h have o: "came_from s n = Some p" by simp
    from D(4)[OF o] have pn: "p \<noteq> nbr" using assms(2) by auto
    from D(6)[OF o] obtain j where "gscore s p = Some j" "gscore s n = Some (Suc j)" by blast
    with D(4)[OF o] D(5)[OF o] False pn show ?thesis by simp
  qed
  show "\<exists>p. came_from (improve goal cur k nbr s) n = Some p"
    if "gscore (improve goal cur k nbr s) n = Some j" "n \<noteq> start" for n j
  proof (cases "n = nbr")
    case True
    then show ?thesis by simp
  next
    case False
    with that have "gscore s n = Some j" by simp
    from D(7)[OF this that(2)] False show ?thesis by simp
  qed
  show "j < g_default" if "gscore (improve goal cur k nbr s) n = Some j" for n j
  proof (cases "n = nbr")
    case True
    with that lt show ?thesis by simp
  next
    case False
    with that have "gscore s n = Some j" by simp
    from D(8)[OF this] show ?thesis .
  qed
qed

lemma improve_open:
  assumes "inv_open goal s" "Suc k < gval s nbr"
  shows "inv_open goal (improve goal cur k nbr s)"
proof (rule inv_openI)
  note D = inv_openD[OF assms(1)]
  show "\<exists>j. gscore (improve goal cur k nbr s) n = Some j \<and> int j + heuristic n goal \<le> f"
    if "(f, n) \<in> set (open_set (improve goal cur k nbr s))" for f n
  proof (cases "n = nbr")
    case True
    show ?thesis
    proof (cases "(f, n) \<in> set (open_set s)")
      case False
      with that True show ?thesis by simp
    next
      case o: True
      from D(1)[OF o] obtain j where "gscore s n = Some j" "int j + heuristic n goal \<le> f" by blast
      with assms(2) True show ?thesis by (simp add: gval_def)
    qed
  next
    case False
    with that have "(f, n) \<in> set (open_set s)" by simp
    from D(1)[OF this] False show ?thesis by simp
  qed
  show "\<exists>f. (f, n) \<in> set (open_set (improve goal cur k nbr s)) \<and> f \<le> int j + heuristic n goal"
    if "gscore (improve goal cur k nbr s) n = Some j" "n \<notin> closed (improve goal cur k nbr s)" for n j
  proof (cases "n = nbr")
    case True
    with that show ?thesis by auto
  next
    case False
    with that have "gscore s n = Some j" "n \<notin> closed s" by simp_all
    from D(2)[OF this] obtain f where "(f, n) \<in> set (open_set s)" "f \<le> int j + heuristic n goal"
      by blast
    then show ?thesis by auto
  qed
qed

lemma improve_closed:
  assumes "inv_closed g start s" "nbr \<notin> closed s"
  shows "inv_closed g start (improve goal cur k nbr s)"
proof (rule inv_closedI)
  fix n assume n: "n \<in> closed (improve goal cur k nbr s)"
  then have "n \<in> closed s" "n \<noteq> nbr" using assms(2) by auto
  with inv_closedD[OF assms(1), of n]
  show "\<exists>k'. gscore (improve goal cur k nbr s) n = Some k' \<and>
         (\<forall>w. walk g w \<longrightarrow> hd w = start \<longrightarrow> last w = n \<longrightarrow> Suc k' \<le> length w)"
    by simp
qed

lemma improve_front:
  assumes "inv_front g D s" "nbr \<notin> closed s" "D \<subseteq> closed s" "Suc k < gval s nbr"
  shows "inv_front g D (improve goal cur k nbr s)"
proof (rule inv_frontI)
  fix n m kn
  assume n: "n \<in> D" and m: "m \<in> set (nbrs_of g n)" and mc: "m \<notin> closed (improve goal cur k nbr s)"
    and gn: "gscore (improve goal cur k nbr s) n = Some kn" and lt: "Suc kn < g_default"
  have "n \<noteq> nbr" using n assms(2,3) by auto
  with gn have gn': "gscore s n = Some kn" by simp
  from mc have mc': "m \<notin> closed s" by simp
  from inv_frontD[OF assms(1) n m mc' gn' lt] obtain j where j: "gscore s m = Some j" "j \<le> Suc kn"
    by blast
  show "\<exists>j. gscore (improve goal cur k nbr s) m = Some j \<and> j \<le> Suc kn"
  proof (cases "m = nbr")
    case True
    with j assms(4) show ?thesis by (simp add: gval_def)
  next
    case False
    with j show ?thesis by simp
  qed
qed

lemma relax_closed: "relax goal cur ns s = Inr s' \<Longrightarrow> closed s' = closed s"
  by (rule relax_rule[where P = "\<lambda>t. closed t = closed s"]) simp_all

lemma relax_gscore_closed:
  assumes "relax goal cur ns s = Inr s'" "n \<in> closed s"
  shows "gscore s' n = gscore s n"
  by (rule relax_rule[OF assms(1), where P = "\<lambda>t. closed t = closed s \<and> gscore t n = gscore s n", THEN conjunct2])
     (use assms(2) in auto)

lemma relax_mono:
  assumes "relax goal cur ns s = Inr s'" "gscore s m = Some j"
  shows "\<exists>j'. gscore s' m = Some j' \<and> j' \<le> j"
proof (rule relax_rule[OF assms(1), where P = "\<lambda>t. \<exists>j'. gscore t m = Some j' \<and> j' \<le> j"])
  show "\<exists>j'. gscore s m = Some j' \<and> j' \<le> j" using assms(2) by simp
next
  fix t nbr k
  assume "\<exists>j'. gscore t m = Some j' \<and> j' \<le> j" and "Suc k < gval t nbr"
  then show "\<exists>j'. gscore (improve goal cur k nbr t) m = Some j' \<and> j' \<le> j"
    by (cases "m = nbr") (auto simp: gval_def)
qed

definition rinv ::
  "grid \<Rightarrow> coord \<Rightarrow> coord \<Rightarrow> coord \<Rightarrow> nat \<Rightarrow> coord set \<Rightarrow> astar_state \<Rightarrow> bool" where
  "rinv g start goal cur kc D s \<longleftrightarrow>
     inv_chain g start s \<and> inv_open goal s \<and> inv_closed g start s \<and> inv_front g D s \<and>
     D \<subseteq> closed s \<and> cur \<in> closed s \<and> gscore s cur = Some kc"

lemma relax_rinv:
  assumes "relax goal cur ns s = Inr s'" "rinv g start goal cur kc D s" "set ns \<subseteq> set (nbrs_of g cur)"
  shows "rinv g start goal cur kc D s'"
proof (rule relax_rule[OF assms(1), where P = "rinv g start goal cur kc D"])
  show "rinv g start goal cur kc D s" by (rule assms(2))
next
  fix t nbr k
  assume r: "rinv g start goal cur kc D t" and nbr: "nbr \<in> set ns" and nc: "nbr \<notin> closed t"
    and k: "gscore t cur = Some k" and lt: "Suc k < gval t nbr"
  from r have c: "cur \<in> closed t" and d: "D \<subseteq> closed t" and kc: "gscore t cur = Some kc"
    by (simp_all add: rinv_def)
  have ne: "nbr \<noteq> cur" using c nc by auto
  have nb: "nbr \<in> set (nbrs_of g cur)" using nbr assms(3) by auto
  have "inv_chain g start (improve goal cur k nbr t)"
    using r nc c k nb lt by (intro improve_chain) (simp_all add: rinv_def)
  moreover have "inv_open goal (improve goal cur k nbr t)"
    using r lt by (intro improve_open) (simp_all add: rinv_def)
  moreover have "inv_closed g start (improve goal cur k nbr t)"
    using r nc by (intro improve_closed) (simp_all add: rinv_def)
  moreover have "inv_front g D (improve goal cur k nbr t)"
    using r nc d lt by (intro improve_front) (simp_all add: rinv_def)
  ultimately show "rinv g start goal cur kc D (improve goal cur k nbr t)"
    using c d kc ne by (simp add: rinv_def)
qed

lemma relax_front_cur:
  assumes "relax goal cur ns s = Inr s'" "gscore s cur = Some kc" "cur \<in> closed s"
    "m \<in> set ns" "m \<notin> closed s" "Suc kc < g_default"
  shows "\<exists>j. gscore s' m = Some j \<and> j \<le> Suc kc"
  using assms(1,2,3,4,5)
proof (induction ns arbitrary: s)
  case Nil
  then show ?case by simp
next
  case (Cons nbr ns)
  show ?case
  proof (cases "nbr \<in> closed s")
    case True
    then have r: "relax goal cur ns s = Inr s'" using Cons.prems(1) by (simp add: relax_Cons)
    have "m \<in> set ns" using Cons.prems(4,5) True by auto
    from Cons.IH[OF r Cons.prems(2,3) this Cons.prems(5)] show ?thesis .
  next
    case False
    then have ne: "nbr \<noteq> cur" using Cons.prems(3) by auto
    show ?thesis
    proof (cases "Suc kc < gval s nbr")
      case True
      let ?t = "improve goal cur kc nbr s"
      have r: "relax goal cur ns ?t = Inr s'"
        using Cons.prems(1,2) False True by (simp add: relax_Cons)
      show ?thesis
      proof (cases "m = nbr")
        case True
        then have "gscore ?t m = Some (Suc kc)" by simp
        from relax_mono[OF r this] show ?thesis .
      next
        case F3: False
        then have "m \<in> set ns" using Cons.prems(4) by simp
        moreover have "gscore ?t cur = Some kc" using Cons.prems(2) ne by simp
        ultimately show ?thesis using Cons.IH[OF r] Cons.prems(3,5) by simp
      qed
    next
      case F2: False
      then have r: "relax goal cur ns s = Inr s'"
        using Cons.prems(1,2) False by (simp add: relax_Cons)
      show ?thesis
      proof (cases "m = nbr")
        case True
        from F2 assms(6) obtain j where "gscore s nbr = Some j" "j \<le> Suc kc"
          by (cases "gscore s nbr") (auto simp: gval_def)
        with relax_mono[OF r, of m j] True show ?thesis by fastforce
      next
        case F3: False
        then have "m \<in> set ns" using Cons.prems(4) by simp
        from Cons.IH[OF r Cons.prems(2,3) this Cons.prems(5)] show ?thesis .
      qed
    qed
  qed
qed

lemma heappop_min:
  assumes "h \<noteq> []"
  shows "fst (heappop h) \<in> set h" and "e \<in> set h \<Longrightarrow> fst (heappop h) \<le> e"
    and "snd (heappop h) = remove1 (fst (heappop h)) h"
  using assms by (simp_all add: heappop_def Let_def min_list_Min)

lemma prod_le_fst: "(x :: int \<times> coord) \<le> y \<Longrightarrow> fst x \<le> fst y"
  by (auto simp: less_eq_prod_def)

definition linv :: "grid \<Rightarrow> coord \<Rightarrow> coord \<Rightarrow> astar_state \<Rightarrow> bool" where
  "linv g start goal s \<longleftrightarrow>
     inv_chain g start s \<and> inv_open goal s \<and> inv_closed g start s \<and> inv_front g (closed s) s \<and>
     goal \<notin> closed s"

lemma pop_optimal:
  assumes l: "linv g start goal s"
    and top: "(f, cur) \<in> set (open_set s)" and least: "\<And>e. e \<in> set (open_set s) \<Longrightarrow> (f, cur) \<le> e"
    and nc: "cur \<notin> closed s" and kc: "gscore s cur = Some kc"
    and w: "walk g w" "hd w = start" "last w = cur"
  shows "Suc kc \<le> length w"
proof (rule ccontr)
  assume neg: "\<not> Suc kc \<le> length w"
  from l have ch: "inv_chain g start s" and op: "inv_open goal s" and cl: "inv_closed g start s"
    and fr: "inv_front g (closed s) s" by (simp_all add: linv_def)
  have "hd w \<in> closed s" using inv_chainD(1)[OF ch] w(2) by simp
  from walk_cross[OF w(1) this] nc w(3) obtain xs a b ys where
    dec: "w = xs @ a # b # ys" and a: "a \<in> closed s" and b: "b \<notin> closed s" by auto
  from w(1) dec have w1: "walk g (xs @ [a])" and ba: "b \<in> set (nbrs_of g a)" and w2: "walk g (b # ys)"
    by (simp_all add: walk_split)
  have hd1: "hd (xs @ [a]) = start" using w(2) dec by (cases xs) simp_all
  from inv_closedD[OF cl a] w1 hd1 obtain ka where ka: "gscore s a = Some ka" "Suc ka \<le> length (xs @ [a])"
    by auto
  have len: "length w = length xs + 2 + length ys" using dec by simp
  have "kc < g_default" by (rule inv_chainD(8)[OF ch kc])
  then have "Suc ka < g_default" using ka(2) len neg by simp
  from inv_frontD[OF fr a ba b ka(1) this] obtain j where j: "gscore s b = Some j" "j \<le> Suc ka"
    by blast
  from inv_openD(2)[OF op j(1) b] obtain f' where f': "(f', b) \<in> set (open_set s)"
    "f' \<le> int j + heuristic b goal" by blast
  have "last (b # ys) = cur" using w(3) dec by simp
  with walk_heuristic[OF w2, of goal] have hb: "heuristic b goal \<le> int (length ys) + heuristic cur goal"
    by simp
  from inv_openD(1)[OF op top] kc have fk: "int kc + heuristic cur goal \<le> f" by auto
  have "f \<le> f'" using prod_le_fst[OF least[OF f'(1)]] by simp
  with fk f'(2) hb j(2) ka(2) have "int kc \<le> int (length xs) + 1 + int (length ys)" by simp
  with len neg show False by simp
qed

lemma pop_rinv:
  assumes l: "linv g start goal s" and ne: "open_set s \<noteq> []"
    and cur: "cur = snd (fst (heappop (open_set s)))"
    and s2: "s2 = s\<lparr>open_set := snd (heappop (open_set s)), closed := insert cur (closed s)\<rparr>"
  shows "\<exists>kc. rinv g start goal cur kc (closed s) s2"
proof -
  from l have ch: "inv_chain g start s" and op: "inv_open goal s" and cl: "inv_closed g start s"
    and fr: "inv_front g (closed s) s" by (simp_all add: linv_def)
  note chD = inv_chainD[OF ch]
  obtain f where top: "fst (heappop (open_set s)) = (f, cur)"
    using cur by (cases "fst (heappop (open_set s))") simp
  have topin: "(f, cur) \<in> set (open_set s)" using heappop_min(1)[OF ne] top by simp
  have least: "\<And>e. e \<in> set (open_set s) \<Longrightarrow> (f, cur) \<le> e" using heappop_min(2)[OF ne] top by simp
  have rest: "open_set s2 = remove1 (f, cur) (open_set s)" using heappop_min(3)[OF ne] top s2 by simp
  have [simp]: "gscore s2 = gscore s" "came_from s2 = came_from s" "closed s2 = insert cur (closed s)"
    using s2 by simp_all
  from inv_openD(1)[OF op topin] obtain kc where kc: "gscore s cur = Some kc" by blast
  have c1: "inv_chain g start s2"
  proof (rule inv_chainI)
    show "start \<in> closed s2" using chD(1) by simp
    show "gscore s2 start = Some 0" using chD(2) by simp
    show "came_from s2 start = None" using chD(3) by simp
    show "p \<in> closed s2 \<and> n \<in> set (nbrs_of g p) \<and> (\<exists>k. gscore s2 p = Some k \<and> gscore s2 n = Some (Suc k))"
      if "came_from s2 n = Some p" for n p
      using that chD(4)[of n p] chD(5)[of n p] chD(6)[of n p] by simp
    show "\<exists>p. came_from s2 n = Some p" if "gscore s2 n = Some k" "n \<noteq> start" for n k
      using that chD(7)[of n k] by simp
    show "k < g_default" if "gscore s2 n = Some k" for n k
      using that chD(8)[of n k] by simp
  qed
  have c2: "inv_open goal s2"
  proof (rule inv_openI)
    show "\<exists>k. gscore s2 n = Some k \<and> int k + heuristic n goal \<le> f'"
      if "(f', n) \<in> set (open_set s2)" for f' n
    proof -
      from that rest have "(f', n) \<in> set (open_set s)" using set_remove1_subset[of "(f, cur)" "open_set s"] by auto
      from inv_openD(1)[OF op this] show ?thesis by simp
    qed
    show "\<exists>f'. (f', n) \<in> set (open_set s2) \<and> f' \<le> int k + heuristic n goal"
      if "gscore s2 n = Some k" "n \<notin> closed s2" for n k
    proof -
      from that have g: "gscore s n = Some k" and nc: "n \<notin> closed s" and nn: "n \<noteq> cur" by simp_all
      from inv_openD(2)[OF op g nc] obtain f' where f': "(f', n) \<in> set (open_set s)"
        "f' \<le> int k + heuristic n goal" by blast
      from f'(1) nn have "(f', n) \<in> set (open_set s2)" by (simp add: rest)
      with f'(2) show ?thesis by blast
    qed
  qed
  have c3: "inv_closed g start s2"
  proof (rule inv_closedI)
    fix n assume n: "n \<in> closed s2"
    show "\<exists>k. gscore s2 n = Some k \<and> (\<forall>w. walk g w \<longrightarrow> hd w = start \<longrightarrow> last w = n \<longrightarrow> Suc k \<le> length w)"
    proof (cases "n \<in> closed s")
      case True
      from inv_closedD[OF cl True] show ?thesis by simp
    next
      case False
      with n have nc: "n = cur" by simp
      have "Suc kc \<le> length w" if "walk g w" "hd w = start" "last w = cur" for w
        using pop_optimal[OF l topin least _ kc that] False nc by simp
      with kc nc show ?thesis by simp
    qed
  qed
  have c4: "inv_front g (closed s) s2"
  proof (rule inv_frontI)
    fix n m k
    assume "n \<in> closed s" "m \<in> set (nbrs_of g n)" "m \<notin> closed s2" "gscore s2 n = Some k" "Suc k < g_default"
    then show "\<exists>j. gscore s2 m = Some j \<and> j \<le> Suc k"
      using inv_frontD[OF fr, of n m k] by simp
  qed
  show ?thesis using c1 c2 c3 c4 kc by (auto simp: rinv_def)
qed

lemma rinv_relax_linv:
  assumes r2: "rinv g start goal cur kc D s2" and cl2: "closed s2 = insert cur D"
    and cg: "cur \<noteq> goal" and gd: "goal \<notin> D"
    and nb: "neighbors g cur = Inr nbrs" and rl: "relax goal cur nbrs s2 = Inr s3"
  shows "linv g start goal s3"
proof -
  have nbo: "nbrs_of g cur = nbrs" using nb by (simp add: nbrs_of_def)
  have r3: "rinv g start goal cur kc D s3"
    by (rule relax_rinv[OF rl r2]) (simp add: nbo)
  have cl3: "closed s3 = insert cur D" using relax_closed[OF rl] cl2 by simp
  have k2: "gscore s2 cur = Some kc" and c2: "cur \<in> closed s2" using r2 by (simp_all add: rinv_def)
  have k3: "gscore s3 cur = Some kc" using r3 by (simp add: rinv_def)
  have fr: "inv_front g (closed s3) s3"
  proof (rule inv_frontI)
    fix n m k
    assume n: "n \<in> closed s3" and m: "m \<in> set (nbrs_of g n)" and mc: "m \<notin> closed s3"
      and gn: "gscore s3 n = Some k" and lt: "Suc k < g_default"
    show "\<exists>j. gscore s3 m = Some j \<and> j \<le> Suc k"
    proof (cases "n = cur")
      case True
      with gn k3 have "k = kc" by simp
      moreover have "m \<in> set nbrs" using m True nbo by simp
      moreover have "m \<notin> closed s2" using mc cl3 cl2 by simp
      ultimately show ?thesis using relax_front_cur[OF rl k2 c2] lt by simp
    next
      case False
      with n cl3 have "n \<in> D" by simp
      moreover have "inv_front g D s3" using r3 by (simp add: rinv_def)
      ultimately show ?thesis using inv_frontD[of g D s3 n m k] m mc gn lt by simp
    qed
  qed
  have "goal \<notin> closed s3" using gd cg cl3 by simp
  with r3 fr show ?thesis by (simp add: linv_def rinv_def)
qed

lemma step_linv:
  assumes l: "linv g start goal s" and ne: "open_set s \<noteq> []"
    and cur: "cur = snd (fst (heappop (open_set s)))" and cg: "cur \<noteq> goal"
    and s2: "s2 = s\<lparr>open_set := snd (heappop (open_set s)), closed := insert cur (closed s)\<rparr>"
    and nb: "neighbors g cur = Inr nbrs" and rl: "relax goal cur nbrs s2 = Inr s3"
  shows "linv g start goal s3"
proof -
  from pop_rinv[OF l ne cur s2] obtain kc where r2: "rinv g start goal cur kc (closed s) s2" by blast
  have "closed s2 = insert cur (closed s)" using s2 by simp
  moreover have "goal \<notin> closed s" using l by (simp add: linv_def)
  ultimately show ?thesis using rinv_relax_linv[OF r2 _ cg _ nb rl] by simp
qed

section \<open>A* search: the result of the loop\<close>

text \<open>
  Following the parent pointers from a scored node reaches \<open>start\<close> and yields a walk with
  as many edges as the g-score. When the heap runs empty no walk of at most 1000000
  coordinates leads to the goal; when the goal is popped the reconstructed walk is a
  shortest one. The only error the loop can raise under the invariants comes from
  \<open>_neighbors\<close>.
\<close>

definition shortest :: "grid \<Rightarrow> coord \<Rightarrow> coord \<Rightarrow> coord list \<Rightarrow> bool" where
  "shortest g start goal p \<longleftrightarrow>
     walk g p \<and> hd p = start \<and> last p = goal \<and>
     (\<forall>q. walk g q \<longrightarrow> hd q = start \<longrightarrow> last q = goal \<longrightarrow> length p \<le> length q)"

definition astar_post ::
  "grid \<Rightarrow> coord \<Rightarrow> coord \<Rightarrow> (error + coord list option) option \<Rightarrow> bool" where
  "astar_post g start goal r \<longleftrightarrow>
     (case r of
        None \<Rightarrow> False
      | Some (Inl e) \<Rightarrow> (\<exists>p. neighbors g p = Inl e)
      | Some (Inr None) \<Rightarrow>
          (\<forall>q. walk g q \<longrightarrow> hd q = start \<longrightarrow> last q = goal \<longrightarrow> g_default < length q)
      | Some (Inr (Some p)) \<Rightarrow> shortest g start goal p \<and> length p \<le> g_default)"

lemma walk_nonempty: "walk g w \<Longrightarrow> w \<noteq> []"
  by (cases w) simp_all

lemma reconstruct_chain:
  assumes ch: "inv_chain g start s"
  shows "gscore s n = Some k \<Longrightarrow>
         \<exists>w. walk g w \<and> hd w = start \<and> last w = n \<and> length w = Suc k \<and>
             (\<forall>pre. reconstruct (came_from s) start (pre @ [n]) = Some (Inr (w @ rev pre)))"
proof (induction k arbitrary: n)
  case 0
  have "n = start"
  proof (rule ccontr)
    assume "n \<noteq> start"
    from inv_chainD(7)[OF ch 0 this] obtain p where "came_from s n = Some p" by blast
    from inv_chainD(6)[OF ch this] 0 show False by simp
  qed
  have "reconstruct (came_from s) start (pre @ [start]) = Some (Inr ([start] @ rev pre))" for pre
    by (subst reconstruct.simps) simp
  then show ?case using \<open>n = start\<close> by (intro exI[of _ "[start]"]) simp
next
  case (Suc k)
  have ns: "n \<noteq> start" using Suc.prems inv_chainD(2)[OF ch] by auto
  from inv_chainD(7)[OF ch Suc.prems ns] obtain p where p: "came_from s n = Some p" by blast
  from inv_chainD(6)[OF ch p] Suc.prems have gp: "gscore s p = Some k" by auto
  from Suc.IH[OF gp] obtain w where w: "walk g w" "hd w = start" "last w = p" "length w = Suc k"
    "\<And>pre. reconstruct (came_from s) start (pre @ [p]) = Some (Inr (w @ rev pre))" by blast
  have wn: "w \<noteq> []" using w(4) by auto
  have "walk g (w @ [n])" using walk_append[OF w(1)] inv_chainD(5)[OF ch p] w(3) by simp
  moreover have "hd (w @ [n]) = start" using wn w(2) by simp
  moreover have "reconstruct (came_from s) start (pre @ [n]) = Some (Inr ((w @ [n]) @ rev pre))" for pre
    using w(5)[of "pre @ [n]"] ns p by (subst reconstruct.simps) simp
  ultimately show ?case using w(4) by (intro exI[of _ "w @ [n]"]) simp
qed

lemma linv_empty:
  assumes l: "linv g start goal s" and e: "open_set s = []"
    and w: "walk g q" "hd q = start" "last q = goal"
  shows "g_default < length q"
proof (rule ccontr)
  assume "\<not> g_default < length q"
  then have len: "length q \<le> g_default" by simp
  from l have ch: "inv_chain g start s" and op: "inv_open goal s" and cl: "inv_closed g start s"
    and fr: "inv_front g (closed s) s" and gc: "goal \<notin> closed s" by (simp_all add: linv_def)
  have "hd q \<in> closed s" using inv_chainD(1)[OF ch] w(2) by simp
  from walk_cross[OF w(1) this] gc w(3) obtain xs a b ys where
    q: "q = xs @ a # b # ys" and a: "a \<in> closed s" and b: "b \<notin> closed s" by auto
  from w(1) q have wa: "walk g (xs @ [a])" and ba: "b \<in> set (nbrs_of g a)"
    by (simp_all add: walk_split)
  have hda: "hd (xs @ [a]) = start" using w(2) q by (cases xs) simp_all
  from inv_closedD[OF cl a] obtain k where k: "gscore s a = Some k"
    "\<And>w. walk g w \<Longrightarrow> hd w = start \<Longrightarrow> last w = a \<Longrightarrow> Suc k \<le> length w" by blast
  from k(2)[OF wa hda] have "k \<le> length xs" by simp
  with len q have "Suc k < g_default" by simp
  from inv_frontD[OF fr a ba b k(1) this] obtain j where j: "gscore s b = Some j" by blast
  from inv_openD(2)[OF op j b] e show False by simp
qed

lemma linv_goal:
  assumes l: "linv g start goal s" and ne: "open_set s \<noteq> []"
    and cur: "snd (fst (heappop (open_set s))) = goal"
  shows "\<exists>p. reconstruct (came_from s) start [goal] = Some (Inr p) \<and> shortest g start goal p \<and>
             length p \<le> g_default"
proof -
  from l have ch: "inv_chain g start s" and op: "inv_open goal s" and gc: "goal \<notin> closed s"
    by (simp_all add: linv_def)
  obtain f where top: "fst (heappop (open_set s)) = (f, goal)"
    using cur by (cases "fst (heappop (open_set s))") simp
  have topin: "(f, goal) \<in> set (open_set s)" using heappop_min(1)[OF ne] top by simp
  have least: "\<And>e. e \<in> set (open_set s) \<Longrightarrow> (f, goal) \<le> e" using heappop_min(2)[OF ne] top by simp
  from inv_openD(1)[OF op topin] obtain k where k: "gscore s goal = Some k" by blast
  from reconstruct_chain[OF ch k] obtain w where w: "walk g w" "hd w = start" "last w = goal"
    "length w = Suc k" "\<And>pre. reconstruct (came_from s) start (pre @ [goal]) = Some (Inr (w @ rev pre))"
    by blast
  have "Suc k \<le> length q" if "walk g q" "hd q = start" "last q = goal" for q
    using pop_optimal[OF l topin least gc k that] .
  then have "shortest g start goal w" using w by (simp add: shortest_def)
  moreover have "reconstruct (came_from s) start [goal] = Some (Inr w)" using w(5)[of "[]"] by simp
  moreover have "length w \<le> g_default" using inv_chainD(8)[OF ch k] w(4) by simp
  ultimately show ?thesis by blast
qed

lemma astar_loop_post:
  "linv g start goal s \<Longrightarrow> astar_post g start goal (astar_loop g start goal s)"
proof (induction g start goal s rule: astar_loop.induct)
  case (1 g start goal s)
  note l = "1.prems"
  show ?case
  proof (cases "open_set s = []")
    case True
    then have "astar_loop g start goal s = Some (Inr None)" by (subst astar_loop.simps) simp
    then show ?thesis using linv_empty[OF l True] by (simp add: astar_post_def)
  next
    case ne: False
    define cur where "cur = snd (fst (heappop (open_set s)))"
    define s1 where "s1 = s\<lparr>open_set := snd (heappop (open_set s))\<rparr>"
    define s2 where "s2 = s1\<lparr>closed := insert cur (closed s1)\<rparr>"
    have s2': "s2 = s\<lparr>open_set := snd (heappop (open_set s)), closed := insert cur (closed s)\<rparr>"
      by (simp add: s2_def s1_def)
    show ?thesis
    proof (cases "cur = goal")
      case True
      from linv_goal[OF l ne] True obtain p where
        p: "reconstruct (came_from s) start [goal] = Some (Inr p)"
           "shortest g start goal p \<and> length p \<le> g_default"
        by (auto simp: cur_def)
      have "astar_loop g start goal s = Some (Inr (Some p))"
        using ne True p(1) by (subst astar_loop.simps) (simp add: cur_def Let_def)
      then show ?thesis using p(2) by (simp add: astar_post_def)
    next
      case cg: False
      show ?thesis
      proof (cases "neighbors g cur")
        case (Inl e)
        have "astar_loop g start goal s = Some (Inl e)"
          using ne cg Inl by (subst astar_loop.simps) (simp add: cur_def Let_def)
        moreover have "\<exists>p. neighbors g p = Inl e" using Inl by blast
        ultimately show ?thesis by (simp add: astar_post_def del: split_paired_Ex)
      next
        case (Inr nbrs)
        from pop_rinv[OF l ne cur_def s2'] obtain kc where
          r2: "rinv g start goal cur kc (closed s) s2" by blast
        then have "gscore s2 cur = Some kc" "cur \<in> closed s2" by (simp_all add: rinv_def)
        from relax_total[OF this] obtain s3 where s3: "relax goal cur nbrs s2 = Inr s3" by blast
        have l3: "linv g start goal s3" by (rule step_linv[OF l ne cur_def cg s2' Inr s3])
        have "astar_post g start goal (astar_loop g start goal s3)"
          by (rule "1.IH"[OF ne cur_def s1_def cg s2_def Inr s3 l3])
        moreover have "astar_loop g start goal s = astar_loop g start goal s3"
          using ne cg Inr s3 by (subst astar_loop.simps) (simp add: cur_def s1_def s2_def Let_def)
        ultimately show ?thesis by simp
      qed
    qed
  qed
qed

definition rectangular :: "grid \<Rightarrow> bool" where
  "rectangular g \<longleftrightarrow> g \<noteq> [] \<and> hd g \<noteq> [] \<and> list_all (\<lambda>row. length row = length (hd g)) g"

lemma cell_bounds:
  assumes "rectangular g" "p \<in> bounds g"
  shows "cell g p = Inr (g ! nat (fst p) ! nat (snd p))"
proof -
  from assms(2) have r: "0 \<le> fst p" "fst p < int (length g)"
    and c: "0 \<le> snd p" "snd p < int (length (hd g))" by (auto simp: bounds_def)
  have lt: "nat (fst p) < length g" using r by linarith
  then have "g ! nat (fst p) \<in> set g" by (rule nth_mem)
  moreover have "\<forall>row\<in>set g. length row = length (hd g)"
    using assms(1) unfolding rectangular_def list_all_iff by blast
  ultimately have len: "length (g ! nat (fst p)) = length (hd g)" by blast
  have ni: "norm_index (length g) (fst p) = Some (nat (fst p))"
    using r by (simp add: norm_index_def)
  have nj: "norm_index (length (hd g)) (snd p) = Some (nat (snd p))"
    using c by (simp add: norm_index_def)
  show ?thesis using ni nj len by (simp add: cell_def py_index_def)
qed


lemma neighbors_loop_total:
  assumes "rectangular g"
  shows "\<exists>ns. neighbors_loop g (int (length g)) (int (length (hd g))) p ds acc = Inr ns"
proof (induction ds arbitrary: acc)
  case Nil
  show ?case by simp
next
  case (Cons d ds)
  let ?m = "(fst p + fst d, snd p + snd d)"
  show ?case
  proof (cases "?m \<in> bounds g")
    case True
    from cell_bounds[OF assms True] Cons.IH show ?thesis
      using True by (simp add: Let_def bounds_def)
  next
    case False
    then show ?thesis using Cons.IH by (auto simp: Let_def bounds_def)
  qed
qed

lemma neighbors_total:
  assumes "rectangular g"
  shows "\<exists>ns. neighbors g p = Inr ns"
proof -
  have "g \<noteq> []" using assms unfolding rectangular_def by blast
  then have "py_index g 0 = Inr (hd g)"
    by (cases g) (simp_all add: py_index_def norm_index_def)
  then show ?thesis using neighbors_loop_total[OF assms] by (simp add: neighbors_def)
qed

lemma astar_post_astar:
  assumes cs: "cell g start = Inr 1" and cg: "cell g goal = Inr 1"
  shows "astar_post g start goal (astar g start goal)"
proof -
  define s0 :: astar_state where
    "s0 = \<lparr>open_set = heappush [] (0, start), came_from = Map.empty,
           gscore = [start \<mapsto> 0], closed = {}\<rparr>"
  have a: "astar g start goal = astar_loop g start goal s0"
    using cs cg by (simp add: astar_def s0_def)
  have ne: "open_set s0 \<noteq> []" by (simp add: s0_def heappush_def)
  have pop: "heappop (open_set s0) = ((0, start), [])"
    by (simp add: s0_def heappush_def heappop_def)
  show ?thesis
  proof (cases "start = goal")
    case True
    have "reconstruct Map.empty start [start] = Some (Inr [start])"
      by (subst reconstruct.simps) simp
    then have "astar_loop g start goal s0 = Some (Inr (Some [start]))"
      using True ne pop by (subst astar_loop.simps) (simp add: s0_def)
    moreover have "shortest g start goal [start]"
      using True walk_nonempty[of g] by (auto simp: shortest_def Suc_le_eq)
    ultimately show ?thesis using a by (simp add: astar_post_def g_default_def)
  next
    case sg: False
    define s2 :: astar_state where
      "s2 = \<lparr>open_set = [], came_from = Map.empty, gscore = [start \<mapsto> 0], closed = {start}\<rparr>"
    have c1: "inv_chain g start s2"
      by (rule inv_chainI) (auto simp: s2_def g_default_def split: if_splits)
    have c2: "inv_open goal s2"
      by (rule inv_openI) (auto simp: s2_def split: if_splits)
    have c3: "inv_closed g start s2"
    proof (rule inv_closedI)
      fix n assume "n \<in> closed s2"
      then have "n = start" by (simp add: s2_def)
      then show "\<exists>k. gscore s2 n = Some k \<and> (\<forall>w. walk g w \<longrightarrow> hd w = start \<longrightarrow> last w = n \<longrightarrow> Suc k \<le> length w)"
        using walk_nonempty[of g] by (auto simp: s2_def Suc_le_eq)
    qed
    have c4: "inv_front g {} s2" by (rule inv_frontI) simp
    have r2: "rinv g start goal start 0 {} s2"
      using c1 c2 c3 c4 by (simp add: rinv_def) (simp add: s2_def)
    show ?thesis
    proof (cases "neighbors g start")
      case (Inl e)
      have "astar_loop g start goal s0 = Some (Inl e)"
        using ne pop sg Inl by (subst astar_loop.simps) (simp add: Let_def)
      moreover have "\<exists>p. neighbors g p = Inl e" using Inl by blast
      ultimately show ?thesis using a by (simp add: astar_post_def del: split_paired_Ex)
    next
      case (Inr nbrs)
      have "gscore s2 start = Some 0" "start \<in> closed s2" by (simp_all add: s2_def)
      from relax_total[OF this] obtain s3 where s3: "relax goal start nbrs s2 = Inr s3" by blast
      have "closed s2 = insert start {}" by (simp add: s2_def)
      from rinv_relax_linv[OF r2 this sg _ Inr s3] have l3: "linv g start goal s3" by simp
      have "astar_loop g start goal s0 = astar_loop g start goal s3"
        using ne pop sg Inr s3 by (subst astar_loop.simps) (simp add: Let_def s0_def s2_def heappush_def)
      then show ?thesis using a astar_loop_post[OF l3] by simp
    qed
  qed
qed

lemma astar_rectangular:
  assumes "rectangular g" "cell g start = Inr 1" "cell g goal = Inr 1"
  shows "\<exists>r. astar g start goal = Some (Inr r) \<and>
             (case r of
                None \<Rightarrow> (\<forall>q. walk g q \<longrightarrow> hd q = start \<longrightarrow> last q = goal \<longrightarrow> g_default < length q)
              | Some p \<Rightarrow> shortest g start goal p \<and> length p \<le> g_default)"
proof -
  have post: "astar_post g start goal (astar g start goal)"
    by (rule astar_post_astar[OF assms(2,3)])
  show ?thesis
  proof (cases "astar g start goal")
    case None
    with post show ?thesis by (simp add: astar_post_def)
  next
    case (Some x)
    show ?thesis
    proof (cases x)
      case (Inl e)
      with post Some obtain p where "neighbors g p = Inl e"
        by (auto simp: astar_post_def simp del: split_paired_Ex)
      with neighbors_total[OF assms(1), of p] show ?thesis by simp
    next
      case (Inr r)
      with post Some show ?thesis by (cases r) (simp_all add: astar_post_def)
    qed
  qed
qed

section \<open>The 4-connected graph of open cells\<close>

text \<open>
  The graph the specification speaks of: its vertices are the in-bounds coordinates whose
  cell holds 1, its edges join 4-adjacent vertices. A path is a non-empty list of vertices
  with consecutive elements adjacent. On a rectangular grid the paths of this graph that
  start at an open cell are exactly the walks of the search.
\<close>

definition open_cell :: "grid \<Rightarrow> coord \<Rightarrow> bool" where
  "open_cell g p \<longleftrightarrow> p \<in> bounds g \<and> cell g p = Inr 1"

definition open_path :: "grid \<Rightarrow> coord list \<Rightarrow> bool" where
  "open_path g w \<longleftrightarrow> w \<noteq> [] \<and> list_all (open_cell g) w \<and> successively adjacent4 w"

lemma open_path_single: "open_path g [p] \<longleftrightarrow> open_cell g p"
  by (simp add: open_path_def)

lemma open_path_Cons:
  "open_path g (p # q # ps) \<longleftrightarrow> open_cell g p \<and> adjacent4 p q \<and> open_path g (q # ps)"
  by (auto simp: open_path_def)

lemma adjacent4_delta:
  assumes "adjacent4 p n"
  shows "\<exists>d \<in> set deltas4. n = (fst p + fst d, snd p + snd d)"
proof -
  obtain a b where p: "p = (a, b)" by (cases p)
  obtain c d where n: "n = (c, d)" by (cases n)
  from assms have "\<bar>a - c\<bar> + \<bar>b - d\<bar> = 1" by (simp add: adjacent4_def p n)
  then have "(c = a \<and> d = b + 1) \<or> (c = a + 1 \<and> d = b) \<or> (c = a \<and> d = b - 1) \<or> (c = a - 1 \<and> d = b)"
    by linarith
  then show ?thesis by (auto simp: p n deltas4_def)
qed

lemma neighbors_loop_acc:
  "neighbors_loop g rows cols p ds acc = Inr ns \<Longrightarrow> set acc \<subseteq> set ns"
proof (induction ds arbitrary: acc)
  case Nil
  then show ?case by simp
next
  case (Cons d ds)
  let ?m = "(fst p + fst d, snd p + snd d)"
  from Cons.prems have
    "neighbors_loop g rows cols p ds acc = Inr ns \<or> neighbors_loop g rows cols p ds (acc @ [?m]) = Inr ns"
    by (auto simp: Let_def split: if_splits sum.splits)
  then show ?case using Cons.IH[of acc] Cons.IH[of "acc @ [?m]"] by auto
qed

lemma neighbors_loop_complete:
  "neighbors_loop g rows cols p ds acc = Inr ns \<Longrightarrow> d \<in> set ds \<Longrightarrow>
   0 \<le> fst p + fst d \<Longrightarrow> fst p + fst d < rows \<Longrightarrow> 0 \<le> snd p + snd d \<Longrightarrow> snd p + snd d < cols \<Longrightarrow>
   cell g (fst p + fst d, snd p + snd d) = Inr 1 \<Longrightarrow> (fst p + fst d, snd p + snd d) \<in> set ns"
proof (induction ds arbitrary: acc)
  case Nil
  then show ?case by simp
next
  case (Cons e ds)
  let ?m = "(fst p + fst e, snd p + snd e)"
  show ?case
  proof (cases "d = e")
    case True
    with Cons.prems have "neighbors_loop g rows cols p ds (acc @ [?m]) = Inr ns"
      by (simp add: Let_def)
    from neighbors_loop_acc[OF this] True show ?thesis by simp
  next
    case False
    with Cons.prems(2) have d: "d \<in> set ds" by simp
    from Cons.prems(1) have
      "neighbors_loop g rows cols p ds acc = Inr ns \<or> neighbors_loop g rows cols p ds (acc @ [?m]) = Inr ns"
      by (auto simp: Let_def split: if_splits sum.splits)
    then show ?thesis
      using Cons.IH[OF _ d Cons.prems(3-7), of acc] Cons.IH[OF _ d Cons.prems(3-7), of "acc @ [?m]"]
      by blast
  qed
qed

lemma nbrs_complete:
  assumes r: "rectangular g" and adj: "adjacent4 p n" and oc: "open_cell g n"
  shows "n \<in> set (nbrs_of g p)"
proof -
  from neighbors_total[OF r, of p] obtain ns where ns: "neighbors g p = Inr ns" by blast
  have "g \<noteq> []" using r unfolding rectangular_def by blast
  then have "py_index g 0 = Inr (hd g)"
    by (cases g) (simp_all add: py_index_def norm_index_def)
  with ns have nl: "neighbors_loop g (int (length g)) (int (length (hd g))) p deltas4 [] = Inr ns"
    by (simp add: neighbors_def)
  from adjacent4_delta[OF adj] obtain d where d: "d \<in> set deltas4"
    "n = (fst p + fst d, snd p + snd d)" by blast
  from oc d(2) have b: "0 \<le> fst p + fst d" "fst p + fst d < int (length g)"
    "0 \<le> snd p + snd d" "snd p + snd d < int (length (hd g))"
    and c: "cell g (fst p + fst d, snd p + snd d) = Inr 1"
    by (auto simp: open_cell_def bounds_def)
  from neighbors_loop_complete[OF nl d(1) b c] d(2) ns show ?thesis by (simp add: nbrs_of_def)
qed

lemma walk_open_path: "walk g w \<Longrightarrow> open_cell g (hd w) \<Longrightarrow> open_path g w"
proof (induction g w rule: walk.induct)
  case (1 g)
  then show ?case by simp
next
  case (2 g p)
  then show ?case by (simp add: open_path_single)
next
  case (3 g p q ps)
  from "3.prems"(1) have q: "q \<in> set (nbrs_of g p)" and w: "walk g (q # ps)" by simp_all
  from nbrs_of_elem[OF q] have "adjacent4 p q" "open_cell g q" by (simp_all add: open_cell_def)
  with "3.IH"[OF w] "3.prems"(2) show ?case by (simp add: open_path_Cons)
qed

lemma open_path_walk: "rectangular g \<Longrightarrow> open_path g w \<Longrightarrow> walk g w"
proof (induction g w rule: walk.induct)
  case (1 g)
  then show ?case by (simp add: open_path_def)
next
  case (2 g p)
  show ?case by simp
next
  case (3 g p q ps)
  from "3.prems"(2) have a: "adjacent4 p q" and o: "open_path g (q # ps)"
    by (simp_all add: open_path_Cons)
  from o have "open_cell g q" by (simp add: open_path_def)
  from nbrs_complete[OF "3.prems"(1) a this] "3.IH"[OF "3.prems"(1) o] show ?case by simp
qed

lemma astar_returns_path_cells:
  assumes "astar g start goal = Some (Inr (Some p))"
  shows "cell g start = Inr 1" and "cell g goal = Inr 1"
  using assms by (auto simp: astar_def split: sum.splits if_splits)

lemma astar_none_iff:
  assumes r: "rectangular g" and s: "open_cell g start" and e: "open_cell g goal"
  shows "astar g start goal = Some (Inr None) \<longleftrightarrow>
         (\<forall>q. open_path g q \<longrightarrow> hd q = start \<longrightarrow> last q = goal \<longrightarrow> g_default < length q)"
proof -
  from s e have cs: "cell g start = Inr 1" and ce: "cell g goal = Inr 1"
    by (simp_all add: open_cell_def)
  from astar_rectangular[OF r cs ce] obtain res where res: "astar g start goal = Some (Inr res)"
    "case res of None \<Rightarrow> (\<forall>q. walk g q \<longrightarrow> hd q = start \<longrightarrow> last q = goal \<longrightarrow> g_default < length q)
     | Some p \<Rightarrow> shortest g start goal p \<and> length p \<le> g_default" by blast
  show ?thesis
  proof (cases res)
    case None
    with res(2) have "\<forall>q. walk g q \<longrightarrow> hd q = start \<longrightarrow> last q = goal \<longrightarrow> g_default < length q"
      by simp
    then have "\<forall>q. open_path g q \<longrightarrow> hd q = start \<longrightarrow> last q = goal \<longrightarrow> g_default < length q"
      using open_path_walk[OF r] by blast
    with res(1) None show ?thesis by simp
  next
    case (Some p)
    with res(2) have sh: "walk g p" "hd p = start" "last p = goal" and len: "length p \<le> g_default"
      by (simp_all add: shortest_def)
    from walk_open_path[OF sh(1)] s sh(2) have "open_path g p" by simp
    with sh(2,3) len have "\<not> (\<forall>q. open_path g q \<longrightarrow> hd q = start \<longrightarrow> last q = goal \<longrightarrow> g_default < length q)"
      by (auto simp: not_less)
    with res(1) Some show ?thesis by simp
  qed
qed

section \<open>astar: optimality\<close>

text \<open>
  C2 (optimality). On a rectangular grid and for \<open>start\<close> in bounds, when \<open>astar\<close> returns
  a path, that path is a path from \<open>start\<close> to \<open>goal\<close> in the 4-connected graph of open
  cells, and no path from \<open>start\<close> to \<open>goal\<close> in that graph has fewer cells: its number of
  edges is the graph distance.
\<close>

theorem astar_optimal:
  assumes "rectangular g" and "start \<in> bounds g"
    and "astar g start goal = Some (Inr (Some p))"
  shows "open_path g p \<and> hd p = start \<and> last p = goal \<and>
         (\<forall>q. open_path g q \<and> hd q = start \<and> last q = goal \<longrightarrow> length p \<le> length q)"
proof -
  note cs = astar_returns_path_cells[OF assms(3)]
  from astar_rectangular[OF assms(1) cs] assms(3) have sh: "shortest g start goal p" by auto
  then have w: "walk g p" "hd p = start" "last p = goal"
    and m: "\<And>q. walk g q \<Longrightarrow> hd q = start \<Longrightarrow> last q = goal \<Longrightarrow> length p \<le> length q"
    by (simp_all add: shortest_def)
  have "open_cell g (hd p)" using w(2) assms(2) cs(1) by (simp add: open_cell_def)
  from walk_open_path[OF w(1) this] have "open_path g p" .
  moreover have "length p \<le> length q" if "open_path g q" "hd q = start" "last q = goal" for q
    using m[OF open_path_walk[OF assms(1) that(1)] that(2,3)] .
  ultimately show ?thesis using w(2,3) by blast
qed

theorem astar_optimal_witness:
  "rectangular [[1, 1], [1, 1]] \<and> (0, 0) \<in> bounds [[1, 1], [1, 1]] \<and>
   astar [[1, 1], [1, 1]] (0, 0) (1, 1) = Some (Inr (Some [(0, 0), (0, 1), (1, 1)])) \<and>
   open_path [[1, 1], [1, 1]] [(0, 0), (0, 1), (1, 1)] \<and>
   open_path [[1, 1], [1, 1]] [(0, 0), (1, 0), (1, 1)] \<and>
   length [(0, 0), (0, 1), (1, 1)] \<le> length [(0, 0), (1, 0), (1, 1 :: int)]"
proof -
  have a: "rectangular [[1, 1], [1, 1]]" by (simp add: rectangular_def)
  have b: "(0, 0) \<in> bounds [[1, 1], [1, 1]]" by (simp add: bounds_def)
  have c: "astar [[1, 1], [1, 1]] (0, 0) (1, 1) = Some (Inr (Some [(0, 0), (0, 1), (1, 1)]))"
    by (simp add: astar_eval relax.simps)
  have d: "open_path [[1, 1], [1, 1]] [(0, 0), (1, 0), (1, 1)]"
    by (simp add: open_path_def open_cell_def bounds_def adjacent4_def cell_def py_index_def norm_index_def)
  from astar_optimal[OF a b c] a b c d show ?thesis by simp
qed


section \<open>astar: coordinates outside the grid\<close>

text \<open>
  C7 as stated (no precondition on the coordinates, never an error) fails: the guard
  reads \<open>grid[start[0]][start[1]]\<close> without a bounds test, and with \<open>start = (5, 5)\<close> on a
  grid of one cell that read raises IndexError.
\<close>

theorem astar_out_of_range_counterexample:
  "astar [[1]] (5, 5) (0, 0) = Some (Inl IndexError)"
  by (simp add: astar_def cell_def py_index_def norm_index_def)


text \<open>
  C7, amended: on a rectangular grid, when \<open>start\<close> and \<open>goal\<close> address cells of the grid,
  \<open>astar\<close> returns a path or None and raises nothing; when one of the two cells is not
  walkable it returns None.
\<close>

theorem astar_returns_on_cells:
  assumes "rectangular g" and "cell g start = Inr vs" and "cell g goal = Inr vg"
  shows "(\<exists>r. astar g start goal = Some (Inr r)) \<and>
         (vs \<noteq> 1 \<or> vg \<noteq> 1 \<longrightarrow> astar g start goal = Some (Inr None))"
proof (cases "vs = 1 \<and> vg = 1")
  case True
  with astar_rectangular[OF assms(1), of start goal] assms(2,3) show ?thesis by auto
next
  case False
  then have "astar g start goal = Some (Inr None)" using assms(2,3) by (auto simp: astar_def)
  then show ?thesis by simp
qed

theorem astar_returns_on_cells_witness:
  "rectangular [[1, 0]] \<and> cell [[1, 0]] (0, 0) = Inr 1 \<and> cell [[1, 0]] (0, 1) = Inr 0 \<and>
   astar [[1, 0]] (0, 0) (0, 1) = Some (Inr None)"
proof -
  have a: "rectangular [[1, 0]]" by (simp add: rectangular_def)
  have b: "cell [[1, 0]] (0, 0) = Inr 1" by (simp add: cell_def py_index_def norm_index_def)
  have c: "cell [[1, 0]] (0, 1) = Inr 0" by (simp add: cell_def py_index_def norm_index_def)
  from astar_returns_on_cells[OF a b c] a b c show ?thesis by simp
qed


section \<open>astar: the default g-score 1000000\<close>

text \<open>
  The relaxation test reads \<open>gscore.get(nbr, 1_000_000)\<close>: a cell that has no g-score yet
  is only entered with a tentative g-score below 1000000. In a corridor of 1000001 open
  cells the far end is 1000000 steps away and is never entered.
\<close>

lemma corridor_cell: "j < m \<Longrightarrow> open_cell [replicate m 1] (0, int j)"
  by (simp add: open_cell_def bounds_def cell_def py_index_def norm_index_def)

lemma corridor_rectangular: "0 < m \<Longrightarrow> rectangular [replicate m 1]"
  by (simp add: rectangular_def)

lemma open_path_snoc:
  "open_path g w \<Longrightarrow> open_cell g x \<Longrightarrow> adjacent4 (last w) x \<Longrightarrow> open_path g (w @ [x])"
  by (simp add: open_path_def successively_append_iff)

lemma corridor_path:
  "n < m \<Longrightarrow> open_path [replicate m 1] (map (\<lambda>j. (0, int j)) [0 ..< Suc n])"
proof (induction n)
  case 0
  then show ?case using corridor_cell[of 0 m] by (simp add: open_path_single)
next
  case (Suc n)
  then have p: "open_path [replicate m 1] (map (\<lambda>j. (0, int j)) [0 ..< Suc n])" by simp
  have "open_path [replicate m 1] (map (\<lambda>j. (0, int j)) [0 ..< Suc n] @ [(0, int (Suc n))])"
    by (rule open_path_snoc[OF p corridor_cell[OF Suc.prems]]) (simp add: adjacent4_def)
  then show ?case by simp
qed

lemma corridor_connected:
  assumes "n < m"
  shows "\<exists>q. open_path [replicate m 1] q \<and> hd q = (0, 0) \<and> last q = (0, int n)"
proof -
  have "hd (map (\<lambda>j. (0, int j)) [0 ..< Suc n]) = (0, 0)" by (simp add: upt_conv_Cons del: upt_Suc)
  moreover have "last (map (\<lambda>j. (0, int j)) [0 ..< Suc n]) = (0, int n)" by simp
  ultimately show ?thesis using corridor_path[OF assms] by blast
qed

lemma corridor_none:
  assumes "g_default \<le> n" and "m = Suc n"
  shows "astar [replicate m 1] (0, 0) (0, int n) = Some (Inr None)"
proof -
  have m: "0 < m" "n < m" using assms(2) by simp_all
  have r: "rectangular [replicate m 1]" by (rule corridor_rectangular[OF m(1)])
  have s: "open_cell [replicate m 1] (0, 0)" using corridor_cell[OF m(1)] by simp
  have e: "open_cell [replicate m 1] (0, int n)" by (rule corridor_cell[OF m(2)])
  have "g_default < length q"
    if q: "open_path [replicate m 1] q" "hd q = (0, 0)" "last q = (0, int n)" for q
  proof -
    from walk_heuristic[OF open_path_walk[OF r q(1)], of "(0, int n)"] q(2,3)
    have "int n \<le> int (length q) - 1" by (simp add: heuristic_def)
    with assms(1) show ?thesis by linarith
  qed
  with astar_none_iff[OF r s e] show ?thesis by blast
qed


text \<open>
  C3 (a path is returned exactly when one exists). On the grid of one row of 1000001 open
  cells, \<open>astar\<close> from the first cell to the last returns None although the row itself is a
  path of open cells between them.
\<close>

theorem astar_sentinel_hides_path:
  "astar [replicate 1000001 1] (0, 0) (0, 1000000) = Some (Inr None) \<and>
   (\<exists>q. open_path [replicate 1000001 1] q \<and> hd q = (0, 0) \<and> last q = (0, 1000000))"
proof -
  have "g_default \<le> 1000000" by (simp add: g_default_def)
  from corridor_none[OF this, of 1000001] have "astar [replicate 1000001 1] (0, 0) (0, 1000000) = Some (Inr None)"
    by simp
  moreover from corridor_connected[of 1000000 1000001]
  have "\<exists>q. open_path [replicate 1000001 1] q \<and> hd q = (0, 0) \<and> last q = (0, 1000000)" by simp
  ultimately show ?thesis by blast
qed

section \<open>make_unsolvable with astar as the path finder\<close>

text \<open>
  With \<open>astar\<close> as the path finder on a rectangular grid, endpoints that are open cells
  with no path of open cells between them make \<open>make_unsolvable\<close> return True at once,
  the grid left as it is.
\<close>

lemma make_unsolvable_astar_disconnected:
  assumes r: "rectangular g" and s: "open_cell g start" and e: "open_cell g end'"
    and n: "\<not> (\<exists>q. open_path g q \<and> hd q = start \<and> last q = end')"
  shows "make_unsolvable seeded entropy g start end' astar seed mt = Some (Returned True, g)"
proof -
  from n have "\<forall>q. open_path g q \<longrightarrow> hd q = start \<longrightarrow> last q = end' \<longrightarrow> g_default < length q"
    by blast
  with astar_none_iff[OF r s e] have a: "astar g start end' = Some (Inr None)" by blast
  from s e have c: "cell g start = Inr 1" "cell g end' = Inr 1" by (simp_all add: open_cell_def)
  have t: "\<not> truthy None" by (simp add: truthy_def)
  from make_unsolvable_reported[of g start end' astar None seeded entropy seed mt] c a t
  show ?thesis by blast
qed

text \<open>
  C8 (True means that no path exists). On the grid of one row of 1000001 open cells, with
  \<open>astar\<close> as the path finder, \<open>make_unsolvable\<close> from the first cell to the last returns
  True with the grid as it was, although the row itself is a path of open cells between
  the two: \<open>astar\<close> reports no path there, and \<open>make_unsolvable\<close> takes the report to
  mean that the pair is unsolvable already.
\<close>

theorem make_unsolvable_true_on_connected:
  "make_unsolvable seeded entropy [replicate 1000001 1] (0, 0) (0, 1000000) astar seed mt
     = Some (Returned True, [replicate 1000001 1]) \<and>
   (\<exists>q. open_path [replicate 1000001 1] q \<and> hd q = (0, 0) \<and> last q = (0, 1000000))"
proof -
  have "g_default \<le> 1000000" by (simp add: g_default_def)
  from corridor_none[OF this, of 1000001]
  have a: "astar [replicate 1000001 1] (0, 0) (0, 1000000) = Some (Inr None)" by simp
  from corridor_cell[of 0 1000001] have c0: "cell [replicate 1000001 1] (0, 0) = Inr 1"
    by (simp add: open_cell_def)
  from corridor_cell[of 1000000 1000001] have c1: "cell [replicate 1000001 1] (0, 1000000) = Inr 1"
    by (simp add: open_cell_def)
  have t: "\<not> truthy None" by (simp add: truthy_def)
  from make_unsolvable_reported[of "[replicate 1000001 1]" "(0, 0)" "(0, 1000000)" astar None
      seeded entropy seed mt] c0 c1 a t
  have "make_unsolvable seeded entropy [replicate 1000001 1] (0, 0) (0, 1000000) astar seed mt
          = Some (Returned True, [replicate 1000001 1])" by blast
  moreover from corridor_connected[of 1000000 1000001]
  have "\<exists>q. open_path [replicate 1000001 1] q \<and> hd q = (0, 0) \<and> last q = (0, 1000000)" by simp
  ultimately show ?thesis by blast
qed

end
